theory Spec2Isabelle
  imports
    Complex_Main
    "HOL-Library.Log_Nat"
    "HOL-Library.Multiset"
    "HOL-Library.Sublist"
    "HOL-Library.Char_ord"
    "HOL-Library.List_Lexorder"
begin

section \<open>Numbers of the run-time: IEEE 754 binary64\<close>

text \<open>
  Every JavaScript number, and every value of storage class REAL in SQLite, is an IEEE 754
  double.  A finite double is modelled by the rational number it denotes (the two zeros are
  identified); \<open>rd\<close> rounds an arbitrary rational to the nearest double, ties to even,
  with gradual underflow below \<open>2\<^sup>-\<^sup>1\<^sup>0\<^sup>2\<^sup>2\<close> and overflow to infinity from \<open>2\<^sup>1\<^sup>0\<^sup>2\<^sup>4\<close> on.
\<close>

datatype double = Finite rat | PosInf | NegInf | NaN

definition ilog2 :: "rat \<Rightarrow> int" where
  \<comment> \<open>\<open>\<lfloor>log\<^sub>2 \<bar>x\<bar>\<rfloor>\<close> for \<open>x \<noteq> 0\<close>, from the bit lengths of numerator and denominator\<close>
  "ilog2 x =
     (let (a, b) = quotient_of \<bar>x\<bar>;
          e = bitlen a - bitlen b
      in if 2 powi e \<le> \<bar>x\<bar> then e else e - 1)"

definition round_even :: "rat \<Rightarrow> int" where
  "round_even x =
     (let f = \<lfloor>x\<rfloor>; d = x - of_int f
      in if d < 1 / 2 then f else if 1 / 2 < d then f + 1 else if even f then f else f + 1)"

definition overflows :: "int \<Rightarrow> int \<Rightarrow> bool" where
  \<comment> \<open>\<open>2\<^sup>1\<^sup>0\<^sup>2\<^sup>4 \<le> \<bar>n\<bar> \<cdot> 2\<^sup>q\<close>, decided on integers\<close>
  "overflows n q = (if q \<le> 1024 then 2 ^ nat (1024 - q) \<le> \<bar>n\<bar> else n \<noteq> 0)"

definition rd :: "rat \<Rightarrow> double" where
  \<comment> \<open>\<open>q\<close> is the exponent of the last place of the significand, \<open>n\<close> the significand\<close>
  "rd x =
     (if x = 0 then Finite 0
      else let q = max (ilog2 x - 52) (- 1074);
               n = round_even (x / 2 powi q)
           in if overflows n q then (if 0 < x then PosInf else NegInf)
              else Finite (of_int n * 2 powi q))"

fun dadd :: "double \<Rightarrow> double \<Rightarrow> double" where
  "dadd (Finite a) (Finite b) = rd (a + b)"
| "dadd NaN _ = NaN"
| "dadd _ NaN = NaN"
| "dadd PosInf NegInf = NaN"
| "dadd NegInf PosInf = NaN"
| "dadd PosInf _ = PosInf"
| "dadd _ PosInf = PosInf"
| "dadd NegInf _ = NegInf"
| "dadd _ NegInf = NegInf"

fun dneg :: "double \<Rightarrow> double" where
  "dneg (Finite a) = Finite (- a)"
| "dneg PosInf = NegInf"
| "dneg NegInf = PosInf"
| "dneg NaN = NaN"

definition dsub :: "double \<Rightarrow> double \<Rightarrow> double" where
  "dsub a b = dadd a (dneg b)"

fun dabs :: "double \<Rightarrow> double" where
  "dabs (Finite a) = Finite \<bar>a\<bar>"
| "dabs PosInf = PosInf"
| "dabs NegInf = PosInf"
| "dabs NaN = NaN"

fun dless :: "double \<Rightarrow> double \<Rightarrow> bool" where
  \<comment> \<open>the comparison \<open><\<close>; every comparison with NaN is false\<close>
  "dless NaN _ = False"
| "dless _ NaN = False"
| "dless (Finite a) (Finite b) = (a < b)"
| "dless NegInf NegInf = False"
| "dless NegInf _ = True"
| "dless _ NegInf = False"
| "dless PosInf _ = False"
| "dless _ PosInf = True"

definition dle :: "double \<Rightarrow> double \<Rightarrow> bool" where
  "dle a b = (a \<noteq> NaN \<and> b \<noteq> NaN \<and> \<not> dless b a)"

section \<open>JavaScript values and the string helpers of the record route\<close>

text \<open>
  The fields of a JSON request body, as \<open>express.json()\<close> hands them to the route: absent
  (\<open>undefined\<close>), \<open>null\<close>, a boolean, a number or a string.  Arrays and nested objects are
  left out of the type.  Strings are lists of 8-bit characters (code units up to U+00FF).
\<close>

datatype jsval = JUndefined | JNull | JBool bool | JNum double | JStr string

fun truthy :: "jsval \<Rightarrow> bool" where
  "truthy JUndefined = False"
| "truthy JNull = False"
| "truthy (JBool b) = b"
| "truthy (JNum d) = (d \<noteq> NaN \<and> d \<noteq> Finite 0)"
| "truthy (JStr s) = (s \<noteq> [])"

definition is_whitespace :: "char \<Rightarrow> bool" where
  \<comment> \<open>the white space and line terminators that \<open>String.prototype.trim\<close> removes, up to U+00FF\<close>
  "is_whitespace c = (of_char c \<in> {9, 10, 11, 12, 13, 32, 160 :: nat})"

definition trim :: "string \<Rightarrow> string" where
  "trim s = rev (dropWhile is_whitespace (rev (dropWhile is_whitespace s)))"

definition is_digit :: "char \<Rightarrow> bool" where
  \<comment> \<open>the character class \<open>[0-9]\<close>\<close>
  "is_digit c = (c \<in> set ''0123456789'')"

definition replace_non_digits :: "string \<Rightarrow> string" where
  \<comment> \<open>\<open>s.replace(/[^0-9]/g, '')\<close>\<close>
  "replace_non_digits s = filter is_digit s"

definition digit_value :: "char \<Rightarrow> nat" where
  "digit_value c = of_char c - 48"

definition decimal_value :: "string \<Rightarrow> nat" where
  "decimal_value ds = foldl (\<lambda>a c. 10 * a + digit_value c) 0 ds"

definition parseInt :: "string \<Rightarrow> double" where
  \<comment> \<open>\<open>parseInt\<close> on the strings that reach it here: no sign, no white space, no radix
      prefix; the leading decimal digits are read and the value is rounded to a double\<close>
  "parseInt s =
     (let ds = takeWhile is_digit s
      in if ds = [] then NaN else rd (of_nat (decimal_value ds)))"

definition countText :: "string option \<Rightarrow> string" where
  \<comment> \<open>\<open>response.text?.trim() || "0"\<close>\<close>
  "countText t =
     (case t of None \<Rightarrow> ''0''
      | Some s \<Rightarrow> (if trim s = [] then ''0'' else trim s))"

definition breadCount :: "string option \<Rightarrow> double" where
  \<comment> \<open>\<open>parseInt(countText.replace(/[^0-9]/g, '')) || 0\<close>\<close>
  "breadCount t =
     (let n = parseInt (replace_non_digits (countText t))
      in if truthy (JNum n) then n else Finite 0)"

fun split :: "char \<Rightarrow> string \<Rightarrow> string list" where
  \<comment> \<open>\<open>s.split(c)\<close> for a one-character separator\<close>
  "split c [] = [[]]"
| "split c (x # xs) =
     (if x = c then [] # split c xs
      else (case split c xs of [] \<Rightarrow> [[x]] | y # ys \<Rightarrow> (x # y) # ys))"

definition inline_data :: "string \<Rightarrow> jsval" where
  \<comment> \<open>\<open>imageBase64.split(',')[1]\<close>: an index past the end of the array is \<open>undefined\<close>\<close>
  "inline_data imageBase64 =
     (case split CHR '','' imageBase64 of _ # d # _ \<Rightarrow> JStr d | _ \<Rightarrow> JUndefined)"

definition reply_digits :: "string option \<Rightarrow> string" where
  \<comment> \<open>the digits of the service's reply, in their order; none for a missing reply\<close>
  "reply_digits t = filter is_digit (case t of None \<Rightarrow> [] | Some s \<Rightarrow> s)"

subsection \<open>The publish form of the client\<close>

text \<open>
  \<open>handlePublish\<close> in \<open>App.tsx\<close> posts the text of the cash field after \<open>parseFloat\<close>.
\<close>

fun sign_and_rest :: "string \<Rightarrow> bool \<times> string" where
  "sign_and_rest [] = (False, [])"
| "sign_and_rest (c # cs) =
     (if c = CHR ''-'' then (True, cs) else if c = CHR ''+'' then (False, cs) else (False, c # cs))"

definition exponent_part :: "string \<Rightarrow> int" where
  \<comment> \<open>the value of an exponent part at the start of the text, 0 when there is none\<close>
  "exponent_part s =
     (case s of
        [] \<Rightarrow> 0
      | c # cs \<Rightarrow>
          if c = CHR ''e'' \<or> c = CHR ''E'' then
            (let (negative, r) = sign_and_rest cs; ds = takeWhile is_digit r
             in if ds = [] then 0
                else if negative then - int (decimal_value ds) else int (decimal_value ds))
          else 0)"

definition unsigned_literal :: "string \<Rightarrow> rat option" where
  \<comment> \<open>the value of the longest decimal literal at the start of the text: digits, an
      optional fraction and an optional exponent, with a digit before or after the point\<close>
  "unsigned_literal s =
     (let ds1 = takeWhile is_digit s; r1 = dropWhile is_digit s;
          (ds2, r2) = (case r1 of
                         [] \<Rightarrow> ([], [])
                       | c # cs \<Rightarrow> if c = CHR ''.''
                                   then (takeWhile is_digit cs, dropWhile is_digit cs)
                                   else ([], r1))
      in if ds1 = [] \<and> ds2 = [] then None
         else Some (of_nat (decimal_value (ds1 @ ds2))
                      * 10 powi (exponent_part r2 - int (length ds2))))"

definition parseFloat :: "string \<Rightarrow> double" where
  \<comment> \<open>leading white space is skipped; text without a number at its start gives NaN\<close>
  "parseFloat s =
     (let (negative, r) = sign_and_rest (dropWhile is_whitespace s)
      in if take 8 r = ''Infinity'' then (if negative then NegInf else PosInf)
         else (case unsigned_literal r of
                 None \<Rightarrow> NaN
               | Some q \<Rightarrow> rd (if negative then - q else q)))"

definition posted_cashAmount :: "string \<Rightarrow> jsval" where
  \<comment> \<open>\<open>cashAmount: parseFloat(cashAmount) || 0\<close> inside \<open>JSON.stringify\<close>, which writes a
      number that is not finite as \<open>null\<close>\<close>
  "posted_cashAmount s =
     (let x = parseFloat s; y = (if truthy (JNum x) then x else Finite 0)
      in case y of Finite q \<Rightarrow> JNum (Finite q) | _ \<Rightarrow> JNull)"

section \<open>The SQLite store\<close>

subsection \<open>Values, binding and column affinity\<close>

text \<open>
  A stored value has one of the storage classes NULL, INTEGER, REAL and TEXT (the routes
  never bind a BLOB).  The repository's code does not determine everything the engine does
  with such values; what it leaves open is collected in a record of parameters, and every
  result below holds for all of their values:
  \<^item> whether foreign keys are enforced (a compile-time default of the engine);
  \<^item> whether \<open>SUM\<close> over REAL values uses compensated (Kahan-Babuska-Neumaier) or plain
    left-to-right addition (SQLite from 3.44 on does the former);
  \<^item> which text looks like a number, and which number it denotes;
  \<^item> how a number is printed when it is stored in a TEXT column;
  \<^item> the number that the numeric prefix of a text denotes.
\<close>

datatype sqlval = SNull | SInt int | SReal double | SText string

record sqlite =
  foreign_keys :: bool
  compensated_sum :: bool
  text_to_numeric :: "string \<Rightarrow> sqlval option"
  numeric_to_text :: "sqlval \<Rightarrow> string"
  text_to_real :: "string \<Rightarrow> double"

datatype sql_error = TypeError | ConstraintFailed | IntegerOverflow

fun bind :: "jsval \<Rightarrow> sql_error + sqlval" where
  \<comment> \<open>the driver binds \<open>null\<close> and \<open>undefined\<close> as NULL, every number as a double and every
      string as text; it refuses a boolean.  A NaN arrives in the store as NULL.\<close>
  "bind JUndefined = Inr SNull"
| "bind JNull = Inr SNull"
| "bind (JBool b) = Inl TypeError"
| "bind (JNum d) = Inr (if d = NaN then SNull else SReal d)"
| "bind (JStr s) = Inr (SText s)"

definition int64 :: "int \<Rightarrow> bool" where
  "int64 i = (- (2 ^ 63) \<le> i \<and> i < 2 ^ 63)"

fun real_to_integer :: "double \<Rightarrow> sqlval" where
  \<comment> \<open>a REAL that is a whole number strictly inside the 64-bit range is stored as INTEGER\<close>
  "real_to_integer (Finite q) =
     (if of_int \<lfloor>q\<rfloor> = q \<and> - (2 ^ 63) < \<lfloor>q\<rfloor> \<and> \<lfloor>q\<rfloor> < 2 ^ 63 - 1 then SInt \<lfloor>q\<rfloor>
      else SReal (Finite q))"
| "real_to_integer d = SReal d"

fun integer_affinity :: "sqlite \<Rightarrow> sqlval \<Rightarrow> sqlval" where
  "integer_affinity eng SNull = SNull"
| "integer_affinity eng (SInt i) = SInt i"
| "integer_affinity eng (SReal d) = real_to_integer d"
| "integer_affinity eng (SText s) =
     (case text_to_numeric eng s of Some v \<Rightarrow> v | None \<Rightarrow> SText s)"

fun real_affinity :: "sqlite \<Rightarrow> sqlval \<Rightarrow> sqlval" where
  "real_affinity eng SNull = SNull"
| "real_affinity eng (SInt i) = SReal (rd (of_int i))"
| "real_affinity eng (SReal d) = SReal d"
| "real_affinity eng (SText s) =
     (case text_to_numeric eng s of
        Some (SInt i) \<Rightarrow> SReal (rd (of_int i))
      | Some v \<Rightarrow> v
      | None \<Rightarrow> SText s)"

fun text_affinity :: "sqlite \<Rightarrow> sqlval \<Rightarrow> string option" where
  \<comment> \<open>a TEXT column holds NULL or text; \<open>None\<close> is NULL\<close>
  "text_affinity eng SNull = None"
| "text_affinity eng (SText s) = Some s"
| "text_affinity eng v = Some (numeric_to_text eng v)"

fun comparison_affinity :: "sqlite \<Rightarrow> sqlval \<Rightarrow> sqlval" where
  \<comment> \<open>an operand without affinity that is compared with an INTEGER column: text that looks
      like a number is converted, everything else is compared as it is\<close>
  "comparison_affinity eng (SText s) =
     (case text_to_numeric eng s of Some v \<Rightarrow> v | None \<Rightarrow> SText s)"
| "comparison_affinity eng v = v"

fun sql_eq :: "sqlval \<Rightarrow> sqlval \<Rightarrow> bool" where
  \<comment> \<open>\<open>a = b\<close> is true; a comparison with NULL is never true\<close>
  "sql_eq (SInt a) (SInt b) = (a = b)"
| "sql_eq (SInt a) (SReal d) = (d = Finite (of_int a))"
| "sql_eq (SReal d) (SInt b) = (d = Finite (of_int b))"
| "sql_eq (SReal d) (SReal e) = (d = e \<and> d \<noteq> NaN)"
| "sql_eq (SText s) (SText t) = (s = t)"
| "sql_eq _ _ = False"

fun double_key :: "double \<Rightarrow> nat \<times> rat" where
  "double_key NegInf = (0, 0)"
| "double_key (Finite q) = (1, q)"
| "double_key PosInf = (2, 0)"
| "double_key NaN = (0, 0)"

fun numeric_key :: "sqlval \<Rightarrow> nat \<times> rat" where
  "numeric_key (SInt i) = (1, of_int i)"
| "numeric_key (SReal d) = double_key d"
| "numeric_key _ = (0, 0)"

fun storage_class :: "sqlval \<Rightarrow> nat" where
  "storage_class SNull = 0"
| "storage_class (SInt i) = 1"
| "storage_class (SReal d) = 1"
| "storage_class (SText s) = 2"

fun text_key :: "sqlval \<Rightarrow> string" where
  "text_key (SText s) = s"
| "text_key _ = []"

definition pair_le :: "nat \<times> rat \<Rightarrow> nat \<times> rat \<Rightarrow> bool" where
  "pair_le a b = (fst a < fst b \<or> (fst a = fst b \<and> snd a \<le> snd b))"

definition sql_le :: "sqlval \<Rightarrow> sqlval \<Rightarrow> bool" where
  \<comment> \<open>the order of \<open>ORDER BY\<close>: NULL first, then the numbers by value, then text bytewise\<close>
  "sql_le a b =
     (storage_class a < storage_class b \<or>
      (storage_class a = storage_class b \<and>
       (if storage_class a = 1 then pair_le (numeric_key a) (numeric_key b)
        else text_key a \<le> text_key b)))"

subsection \<open>ORDER BY, GROUP BY and SUM\<close>

fun insert_by :: "('a \<Rightarrow> 'a \<Rightarrow> bool) \<Rightarrow> 'a \<Rightarrow> 'a list \<Rightarrow> 'a list" where
  "insert_by le x [] = [x]"
| "insert_by le x (y # ys) = (if le x y then x # y # ys else y # insert_by le x ys)"

definition order_by :: "('a \<Rightarrow> 'a \<Rightarrow> bool) \<Rightarrow> 'a list \<Rightarrow> 'a list" where
  \<comment> \<open>rows that the order does not separate keep the order in which they were read\<close>
  "order_by le xs = foldr (insert_by le) xs []"

fun add_to_group :: "('r \<Rightarrow> 'k) \<Rightarrow> 'r \<Rightarrow> ('k \<times> 'r list) list \<Rightarrow> ('k \<times> 'r list) list" where
  "add_to_group key r [] = [(key r, [r])]"
| "add_to_group key r ((k, rs) # gs) =
     (if key r = k then (k, rs @ [r]) # gs else (k, rs) # add_to_group key r gs)"

definition group_by :: "('r \<Rightarrow> 'k) \<Rightarrow> 'r list \<Rightarrow> ('k \<times> 'r list) list" where
  "group_by key rows = foldl (\<lambda>gs r. add_to_group key r gs) [] rows"

fun sum_integers :: "int \<Rightarrow> int list \<Rightarrow> int option" where
  \<comment> \<open>64-bit addition; \<open>None\<close> when a partial sum leaves the range\<close>
  "sum_integers acc [] = Some acc"
| "sum_integers acc (i # is) =
     (if int64 (acc + i) then sum_integers (acc + i) is else None)"

fun kbn_step :: "double \<times> double \<Rightarrow> double \<Rightarrow> double \<times> double" where
  "kbn_step (s, c) r =
     (let t = dadd s r
      in (t, dadd c (if dless (dabs r) (dabs s) then dadd (dsub s t) r
                     else dadd (dsub r t) s)))"

definition sum_reals :: "bool \<Rightarrow> double list \<Rightarrow> double" where
  "sum_reals compensated xs =
     (if compensated then
        (case foldl kbn_step (Finite 0, Finite 0) xs of
           (s, Finite c) \<Rightarrow> dadd s (Finite c)
         | (s, _) \<Rightarrow> s)
      else foldl dadd (Finite 0) xs)"

fun sum_operand :: "sqlite \<Rightarrow> sqlval \<Rightarrow> sqlval" where
  \<comment> \<open>the numeric value that \<open>SUM\<close> reads from a row\<close>
  "sum_operand eng (SText s) =
     (case text_to_numeric eng s of Some v \<Rightarrow> v | None \<Rightarrow> SReal (text_to_real eng s))"
| "sum_operand eng v = v"

fun is_integer :: "sqlval \<Rightarrow> bool" where
  "is_integer (SInt i) = True"
| "is_integer _ = False"

fun integer_of :: "sqlval \<Rightarrow> int" where
  "integer_of (SInt i) = i"
| "integer_of _ = 0"

fun real_of :: "sqlval \<Rightarrow> double" where
  "real_of (SInt i) = rd (of_int i)"
| "real_of (SReal d) = d"
| "real_of _ = Finite 0"

definition real_result :: "double \<Rightarrow> sqlval" where
  "real_result d = (if d = NaN then SNull else SReal d)"

definition sqlite_sum :: "sqlite \<Rightarrow> sqlval list \<Rightarrow> sql_error + sqlval" where
  \<comment> \<open>\<open>SUM(X)\<close>: NULL rows are skipped and a group without any other row sums to NULL;
      integers are added exactly and the query fails when a partial sum overflows;
      as soon as one row is not an integer the result is a floating-point sum\<close>
  "sqlite_sum eng vs =
     (let xs = map (sum_operand eng) (filter (\<lambda>v. v \<noteq> SNull) vs)
      in if xs = [] then Inr SNull
         else if list_all is_integer xs then
           (case sum_integers 0 (map integer_of xs) of
              None \<Rightarrow> Inl IntegerOverflow
            | Some n \<Rightarrow> Inr (SInt n))
         else Inr (real_result (sum_reals (compensated_sum eng) (map real_of xs))))"

fun collect :: "('e + 'a) list \<Rightarrow> 'e + 'a list" where
  \<comment> \<open>a statement fails as a whole with the first error\<close>
  "collect [] = Inr []"
| "collect (Inl e # xs) = Inl e"
| "collect (Inr x # xs) = (case collect xs of Inl e \<Rightarrow> Inl e | Inr ys \<Rightarrow> Inr (x # ys))"

subsection \<open>The two tables\<close>

text \<open>
  \<^verbatim>\<open>users(id INTEGER PRIMARY KEY AUTOINCREMENT, email TEXT UNIQUE, password TEXT,
        role TEXT CHECK(role IN ('admin', 'employee')), name TEXT)\<close>

  \<^verbatim>\<open>records(id INTEGER PRIMARY KEY AUTOINCREMENT, user_id INTEGER, employee_name TEXT,
          provider_name TEXT, bread_count INTEGER, cash_amount REAL DEFAULT 0,
          image_url TEXT, timestamp DATETIME DEFAULT CURRENT_TIMESTAMP,
          FOREIGN KEY(user_id) REFERENCES users(id))\<close>

  No route writes \<open>timestamp\<close>: it is always the default, the UTC time of the insertion in
  the form \<open>YYYY-MM-DD HH:MM:SS\<close>.  The model keeps the instant as the number of seconds since
  1970-01-01 00:00:00 UTC; the text form is a strictly increasing function of it, and
  \<open>date(timestamp)\<close>, its first ten characters, of the number of whole days.
\<close>

record users_row =
  users_id :: int
  email :: "string option"
  password :: "string option"
  role :: "string option"
  name :: "string option"

record records_row =
  records_id :: int
  user_id :: sqlval
  employee_name :: "string option"
  provider_name :: "string option"
  bread_count :: sqlval
  cash_amount :: sqlval
  image_url :: "string option"
  timestamp :: int

record database =
  users :: "users_row list"
  users_seq :: int
  records :: "records_row list"
  records_seq :: int

definition date :: "int \<Rightarrow> int" where
  \<comment> \<open>\<open>date(timestamp)\<close>: the UTC calendar day, counted from 1970-01-01\<close>
  "date t = t div 86400"

definition next_rowid :: "int \<Rightarrow> int list \<Rightarrow> int" where
  \<comment> \<open>AUTOINCREMENT: one more than the largest id the table has ever held\<close>
  "next_rowid seq ids = fold max ids seq + 1"

definition parent_exists :: "users_row list \<Rightarrow> sqlval \<Rightarrow> bool" where
  \<comment> \<open>the foreign key of \<open>records.user_id\<close>: NULL, or the id of a user\<close>
  "parent_exists us v = (v = SNull \<or> list_ex (\<lambda>u. sql_eq (SInt (users_id u)) v) us)"

definition insert_record ::
  "sqlite \<Rightarrow> int \<Rightarrow> jsval \<Rightarrow> jsval \<Rightarrow> jsval \<Rightarrow> jsval \<Rightarrow> jsval \<Rightarrow> jsval \<Rightarrow> database
     \<Rightarrow> sql_error + int \<times> database" where
  \<comment> \<open>\<open>INSERT INTO records (user_id, employee_name, provider_name, bread_count, cash_amount,
      image_url) VALUES (?, ?, ?, ?, ?, ?)\<close>, returning \<open>lastInsertRowid\<close>\<close>
  "insert_record eng now a1 a2 a3 a4 a5 a6 db =
     (case (bind a1, bind a2, bind a3, bind a4, bind a5, bind a6) of
        (Inr v1, Inr v2, Inr v3, Inr v4, Inr v5, Inr v6) \<Rightarrow>
          (let row = \<lparr>records_id = next_rowid (records_seq db) (map records_id (records db)),
                      user_id = integer_affinity eng v1,
                      employee_name = text_affinity eng v2,
                      provider_name = text_affinity eng v3,
                      bread_count = integer_affinity eng v4,
                      cash_amount = real_affinity eng v5,
                      image_url = text_affinity eng v6,
                      timestamp = now\<rparr>
           in if foreign_keys eng \<and> \<not> parent_exists (users db) (user_id row)
              then Inl ConstraintFailed
              else Inr (records_id row,
                        db\<lparr>records := records db @ [row], records_seq := records_id row\<rparr>))
      | _ \<Rightarrow> Inl TypeError)"

section \<open>The routes\<close>

datatype 'a reply =
    Json 'a                \<comment> \<open>\<open>res.json(payload)\<close>\<close>
  | Status nat string      \<comment> \<open>\<open>res.status(code).json({ error: message })\<close>\<close>
  | Unhandled sql_error    \<comment> \<open>an exception that leaves the handler\<close>

subsection \<open>POST /api/records\<close>

record body =
  userId :: jsval
  employeeName :: jsval
  providerName :: jsval
  imageBase64 :: jsval
  cashAmount :: jsval

text \<open>
  The vision service is outside the program: \<open>generateContent\<close> is a parameter that maps
  the request to the outcome of the awaited call, an exception or a response whose \<open>text\<close>
  may be undefined.  Besides the reply and the store, the route's outcome lists the requests
  that were sent to the service.
\<close>

record genai_request =
  prompt :: string
  mimeType :: string
  data :: jsval

datatype genai_result = Throws | Response "string option"

record 'a outcome =
  reply :: "'a reply"
  store :: database
  sent :: "genai_request list"

definition count_prompt :: string where
  "count_prompt = ''Count the number of breads in this image. Return ONLY the integer number. If no bread is found, return 0.''"

definition count_request :: "string \<Rightarrow> genai_request" where
  "count_request img = \<lparr>prompt = count_prompt, mimeType = ''image/jpeg'', data = inline_data img\<rparr>"

definition createRecord ::
  "sqlite \<Rightarrow> string option \<Rightarrow> (genai_request \<Rightarrow> genai_result) \<Rightarrow> int \<Rightarrow> body \<Rightarrow> database
     \<Rightarrow> (int \<times> double) outcome" where
  "createRecord eng GEMINI_API_KEY generateContent now b db =
     (let cash = (if cashAmount b = JUndefined then JNum (Finite 0) else cashAmount b);
          failed = Status 500 ''Failed to process image''
      in if GEMINI_API_KEY = None \<or> GEMINI_API_KEY = Some []
         then \<lparr>reply = Status 500 ''Gemini API key not configured'', store = db, sent = []\<rparr>
         else
           (case imageBase64 b of
              JStr img \<Rightarrow>
                (case generateContent (count_request img) of
                   Throws \<Rightarrow> \<lparr>reply = failed, store = db, sent = [count_request img]\<rparr>
                 | Response t \<Rightarrow>
                     (case insert_record eng now (userId b) (employeeName b) (providerName b)
                             (JNum (breadCount t)) cash (JStr img) db of
                        Inl e \<Rightarrow> \<lparr>reply = failed, store = db, sent = [count_request img]\<rparr>
                      | Inr (i, db') \<Rightarrow>
                          \<lparr>reply = Json (i, breadCount t), store = db',
                           sent = [count_request img]\<rparr>))
            | _ \<Rightarrow> \<lparr>reply = failed, store = db, sent = []\<rparr>))"

subsection \<open>GET /api/records\<close>

definition newest_first :: "records_row list \<Rightarrow> records_row list" where
  \<comment> \<open>\<open>ORDER BY timestamp DESC\<close>\<close>
  "newest_first rs = order_by (\<lambda>a b. timestamp b \<le> timestamp a) rs"

definition query_parameter :: "string option \<Rightarrow> sqlval" where
  \<comment> \<open>a value of the query string is text, a missing one is bound as NULL\<close>
  "query_parameter p = (case p of None \<Rightarrow> SNull | Some s \<Rightarrow> SText s)"

definition owned_by :: "sqlite \<Rightarrow> string option \<Rightarrow> records_row \<Rightarrow> bool" where
  \<comment> \<open>\<open>WHERE user_id = ?\<close>\<close>
  "owned_by eng p r = sql_eq (user_id r) (comparison_affinity eng (query_parameter p))"

definition getRecords ::
  "sqlite \<Rightarrow> string option \<Rightarrow> string option \<Rightarrow> database \<Rightarrow> records_row list" where
  "getRecords eng userId_q role_q db =
     (if role_q = Some ''admin'' then newest_first (records db)
      else newest_first (filter (owned_by eng userId_q) (records db)))"

subsection \<open>PUT /api/profile, DELETE /api/users/:id and POST /api/signup\<close>

definition has_id :: "sqlval \<Rightarrow> users_row \<Rightarrow> bool" where
  \<comment> \<open>\<open>WHERE id = ?\<close>\<close>
  "has_id v u = sql_eq (SInt (users_id u)) v"

definition email_taken :: "users_row list \<Rightarrow> (users_row \<Rightarrow> bool) \<Rightarrow> string option \<Rightarrow> bool" where
  \<comment> \<open>the UNIQUE constraint: a row other than the written ones holds the same email\<close>
  "email_taken us written e = (e \<noteq> None \<and> list_ex (\<lambda>u. \<not> written u \<and> email u = e) us)"

definition update_failed :: string where
  "update_failed = ''Email j'' @ [char_of (225 :: nat)] @ '' existe ou erro ao atualizar''"

definition putProfile ::
  "sqlite \<Rightarrow> jsval \<Rightarrow> jsval \<Rightarrow> jsval \<Rightarrow> jsval \<Rightarrow> database
     \<Rightarrow> (int \<times> string option \<times> string option \<times> string option) option reply \<times> database" where
  \<comment> \<open>\<open>UPDATE users SET email = ?, name = ?, password = ? WHERE id = ?\<close> when a password is
      given, \<open>UPDATE users SET email = ?, name = ? WHERE id = ?\<close> otherwise; then
      \<open>SELECT id, email, name, role FROM users WHERE id = ?\<close>\<close>
  "putProfile eng id_b email_b name_b password_b db =
     (case (bind email_b, bind name_b,
            if truthy password_b then bind password_b else Inr SNull, bind id_b) of
        (Inr e, Inr n, Inr p, Inr i) \<Rightarrow>
          (let v = comparison_affinity eng i;
               write = (\<lambda>u. if truthy password_b
                             then u\<lparr>email := text_affinity eng e, name := text_affinity eng n,
                                    password := text_affinity eng p\<rparr>
                             else u\<lparr>email := text_affinity eng e, name := text_affinity eng n\<rparr>);
               us = map (\<lambda>u. if has_id v u then write u else u) (users db)
           in if list_ex (has_id v) (users db)
                 \<and> email_taken (users db) (has_id v) (text_affinity eng e)
              then (Status 400 update_failed, db)
              else (Json (case filter (has_id v) us of
                            [] \<Rightarrow> None
                          | u # _ \<Rightarrow> Some (users_id u, email u, name u, role u)),
                    db\<lparr>users := us\<rparr>))
      | _ \<Rightarrow> (Status 400 update_failed, db))"

definition deleteUser :: "sqlite \<Rightarrow> string \<Rightarrow> database \<Rightarrow> bool reply \<times> database" where
  "deleteUser eng id_p db =
     (let v = comparison_affinity eng (SText id_p)
      in if foreign_keys eng
            \<and> list_ex (\<lambda>r. list_ex (\<lambda>u. has_id v u \<and> sql_eq (user_id r) (SInt (users_id u)))
                              (users db)) (records db)
         then (Unhandled ConstraintFailed, db)
         else (Json True, db\<lparr>users := filter (\<lambda>u. \<not> has_id v u) (users db)\<rparr>))"

definition signup ::
  "sqlite \<Rightarrow> jsval \<Rightarrow> jsval \<Rightarrow> jsval \<Rightarrow> jsval \<Rightarrow> database
     \<Rightarrow> (int \<times> jsval \<times> jsval \<times> jsval) reply \<times> database" where
  "signup eng email_b password_b name_b role_b db =
     (let role' = (if role_b = JUndefined then JStr ''employee'' else role_b)
      in case (bind email_b, bind password_b, bind name_b, bind role') of
           (Inr e, Inr p, Inr n, Inr r) \<Rightarrow>
             (let row = \<lparr>users_id = next_rowid (users_seq db) (map users_id (users db)),
                         email = text_affinity eng e, password = text_affinity eng p,
                         role = text_affinity eng r, name = text_affinity eng n\<rparr>
              in if role row \<notin> {None, Some ''admin'', Some ''employee''}
                    \<or> email_taken (users db) (\<lambda>u. False) (email row)
                 then (Status 400 ''Email already exists'', db)
                 else (Json (users_id row, email_b, name_b, role'),
                       db\<lparr>users := users db @ [row], users_seq := users_id row\<rparr>))
         | _ \<Rightarrow> (Status 400 ''Email already exists'', db))"

subsection \<open>GET /api/stats\<close>

definition totals ::
  "sqlite \<Rightarrow> 'k \<times> records_row list \<Rightarrow> sql_error + 'k \<times> sqlval \<times> sqlval" where
  \<comment> \<open>one result row: the group's key, \<open>SUM(bread_count)\<close> and \<open>SUM(cash_amount)\<close>\<close>
  "totals eng g =
     (case sqlite_sum eng (map bread_count (snd g)) of
        Inl e \<Rightarrow> Inl e
      | Inr t \<Rightarrow>
          (case sqlite_sum eng (map cash_amount (snd g)) of
             Inl e \<Rightarrow> Inl e
           | Inr c \<Rightarrow> Inr (fst g, t, c)))"

definition day_groups :: "records_row list \<Rightarrow> (int \<times> records_row list) list" where
  \<comment> \<open>\<open>GROUP BY date(timestamp) ORDER BY date DESC LIMIT 7\<close>: the order is the one of the
      grouping key, so the groups are formed newest first and the statement ends with the
      seventh; an older group is never summed\<close>
  "day_groups rs =
     take 7 (order_by (\<lambda>a b. fst b \<le> fst a) (group_by (\<lambda>r. date (timestamp r)) rs))"

definition totalByDay ::
  "sqlite \<Rightarrow> records_row list \<Rightarrow> sql_error + (int \<times> sqlval \<times> sqlval) list" where
  \<comment> \<open>\<open>SELECT date(timestamp) as date, SUM(bread_count) as total, SUM(cash_amount) as
      total_cash FROM records GROUP BY date(timestamp) ORDER BY date DESC LIMIT 7\<close>\<close>
  "totalByDay eng rs = collect (map (totals eng) (day_groups rs))"

definition totalByEmployee ::
  "sqlite \<Rightarrow> records_row list \<Rightarrow> sql_error + (string option \<times> sqlval \<times> sqlval) list" where
  \<comment> \<open>\<open>SELECT employee_name, SUM(bread_count) as total, SUM(cash_amount) as total_cash
      FROM records GROUP BY employee_name ORDER BY total DESC\<close>\<close>
  "totalByEmployee eng rs =
     (case collect (map (totals eng) (group_by employee_name rs)) of
        Inl e \<Rightarrow> Inl e
      | Inr ts \<Rightarrow> Inr (order_by (\<lambda>a b. sql_le (fst (snd b)) (fst (snd a))) ts))"

definition getStatistics ::
  "sqlite \<Rightarrow> database
     \<Rightarrow> ((int \<times> sqlval \<times> sqlval) list \<times> (string option \<times> sqlval \<times> sqlval) list) reply" where
  "getStatistics eng db =
     (case totalByDay eng (records db) of
        Inl e \<Rightarrow> Unhandled e
      | Inr days \<Rightarrow>
          (case totalByEmployee eng (records db) of
             Inl e \<Rightarrow> Unhandled e
           | Inr employees \<Rightarrow> Json (days, employees)))"

subsection \<open>Sums without rounding and without overflow\<close>

text \<open>
  The conditions under which \<open>SUM\<close> is the sum of the mathematical values: the counts are
  non-negative integers whose total stays below \<open>2\<^sup>6\<^sup>3\<close>; the amounts are finite doubles that
  are multiples of \<open>2\<^sup>-\<^sup>k\<close>, and the total of their absolute values, counted in these units,
  stays below \<open>2\<^sup>5\<^sup>3\<close>.  Whole amounts up to nine quadrillion are the case \<open>k = 0\<close>.
\<close>

definition dyadic :: "nat \<Rightarrow> rat \<Rightarrow> bool" where
  "dyadic k q = (of_int \<lfloor>q * 2 ^ k\<rfloor> = q * 2 ^ k)"

fun amount :: "sqlval \<Rightarrow> rat" where
  \<comment> \<open>the number that a stored value denotes\<close>
  "amount (SInt i) = of_int i"
| "amount (SReal (Finite q)) = q"
| "amount _ = 0"

fun finite_real :: "sqlval \<Rightarrow> bool" where
  "finite_real (SReal (Finite q)) = True"
| "finite_real _ = False"

definition exact_counts :: "sqlval list \<Rightarrow> bool" where
  "exact_counts vs =
     (list_all (\<lambda>v. is_integer v \<and> 0 \<le> integer_of v) vs \<and> sum_list (map integer_of vs) < 2 ^ 63)"

definition exact_amounts :: "nat \<Rightarrow> sqlval list \<Rightarrow> bool" where
  "exact_amounts k vs =
     (k \<le> 1074 \<and> list_all (\<lambda>v. finite_real v \<and> dyadic k (amount v)) vs
      \<and> sum_list (map (\<lambda>v. \<bar>amount v\<bar>) vs) * 2 ^ k < 2 ^ 53)"

definition scaled :: "nat \<Rightarrow> int \<Rightarrow> rat" where
  \<comment> \<open>\<open>m\<close> units of \<open>2\<^sup>-\<^sup>k\<close>\<close>
  "scaled k m = of_int m / 2 ^ k"

definition count_sum :: "records_row list \<Rightarrow> int" where
  \<comment> \<open>the sum of the counts of some records, as a sum of integers\<close>
  "count_sum rs = sum_list (map (\<lambda>r. integer_of (bread_count r)) rs)"

definition cash_sum :: "records_row list \<Rightarrow> rat" where
  \<comment> \<open>the sum of the cash amounts of some records, as a sum of rationals\<close>
  "cash_sum rs = sum_list (map (\<lambda>r. amount (cash_amount r)) rs)"

definition local_date :: "int \<Rightarrow> int \<Rightarrow> int" where
  \<comment> \<open>After the spec's words, for comparison with \<open>date\<close>: the calendar day with a
      server-local day boundary, on a server whose clock is \<open>offset\<close> seconds ahead of UTC\<close>
  "local_date offset t = (t + offset) div 86400"

definition newer_days :: "records_row list \<Rightarrow> int \<Rightarrow> int list" where
  \<comment> \<open>the days after day \<open>d\<close> on which the store has a record, each once\<close>
  "newer_days rs d = remdups (filter (\<lambda>d'. d < d') (map (\<lambda>r. date (timestamp r)) rs))"

definition recent :: "records_row list \<Rightarrow> records_row \<Rightarrow> bool" where
  \<comment> \<open>a record of one of the seven most recent days that have records\<close>
  "recent rs r = (length (newer_days rs (date (timestamp r))) < 7)"

subsection \<open>Sequences of requests\<close>

datatype request =
    CreateRecord "string option" "genai_request \<Rightarrow> genai_result" int body
  | GetRecords "string option" "string option"
  | GetStatistics
  | PutProfile jsval jsval jsval jsval
  | DeleteUser string
  | Signup jsval jsval jsval jsval

fun handle :: "sqlite \<Rightarrow> database \<Rightarrow> request \<Rightarrow> database" where
  \<comment> \<open>the store after a request has been served\<close>
  "handle eng db (CreateRecord key gen now b) = store (createRecord eng key gen now b db)"
| "handle eng db (GetRecords u r) = db"
| "handle eng db GetStatistics = db"
| "handle eng db (PutProfile i e n p) = snd (putProfile eng i e n p db)"
| "handle eng db (DeleteUser i) = snd (deleteUser eng i db)"
| "handle eng db (Signup e p n r) = snd (signup eng e p n r db)"

definition serve :: "sqlite \<Rightarrow> database \<Rightarrow> request list \<Rightarrow> database" where
  "serve eng db rqs = foldl (handle eng) db rqs"

text \<open>
  To compare two orders of insertion: what a request submits, apart from the time at which it
  is served, and what a record holds, apart from the two columns that the store assigns.
\<close>

fun submitted ::
  "request \<Rightarrow> (string option \<times> (genai_request \<Rightarrow> genai_result) \<times> body) option" where
  "submitted (CreateRecord key gen now b) = Some (key, gen, b)"
| "submitted _ = None"

definition contents :: "records_row \<Rightarrow> records_row" where
  \<comment> \<open>the six columns of the \<open>INSERT\<close>; \<open>id\<close> and \<open>timestamp\<close> are blanked\<close>
  "contents r = r\<lparr>records_id := 0, timestamp := 0\<rparr>"

definition appended ::
  "sqlite \<Rightarrow> users_row list \<Rightarrow> (string option \<times> (genai_request \<Rightarrow> genai_result) \<times> body) option
     \<Rightarrow> records_row list" where
  \<comment> \<open>the contents that a submission adds to an empty table of records\<close>
  "appended eng us s =
     (case s of
        None \<Rightarrow> []
      | Some (key, gen, b) \<Rightarrow>
          map contents (records (store (createRecord eng key gen 0 b
            \<lparr>users = us, users_seq = 0, records = [], records_seq = 0\<rparr>))))"

section \<open>Concrete data for the examples\<close>

text \<open>
  An instance of the engine parameters: foreign keys enforced and compensated summation.
  Unsigned decimal text of at most 18 digits denotes its integer; this instance takes no
  other text as a number.
\<close>

definition decimal_text :: "string \<Rightarrow> sqlval option" where
  "decimal_text s =
     (if s \<noteq> [] \<and> list_all is_digit s \<and> length s \<le> 18
      then Some (SInt (int (decimal_value s))) else None)"

definition engine :: sqlite where
  "engine = \<lparr>foreign_keys = True, compensated_sum = True, text_to_numeric = decimal_text,
             numeric_to_text = (\<lambda>v. ''?''), text_to_real = (\<lambda>s. Finite 0)\<rparr>"

definition plain_engine :: sqlite where
  \<comment> \<open>the same with foreign keys off and uncompensated summation\<close>
  "plain_engine = engine\<lparr>foreign_keys := False, compensated_sum := False\<rparr>"

definition admin :: users_row where
  \<comment> \<open>the row that the start-up code seeds\<close>
  "admin = \<lparr>users_id = 1, email = Some ''admin@goitom.com'', password = Some ''admin123'',
            role = Some ''admin'', name = Some ''Administrator''\<rparr>"

definition ana :: users_row where
  "ana = \<lparr>users_id = 2, email = Some ''ana@goitom.com'', password = Some ''pw'',
          role = Some ''employee'', name = Some ''Ana''\<rparr>"

definition db0 :: database where
  "db0 = \<lparr>users = [admin, ana], users_seq = 2, records = [], records_seq = 0\<rparr>"

definition data_url :: string where
  \<comment> \<open>a captured image as the canvas encodes it\<close>
  "data_url = ''data:image/jpeg;base64,AAAA''"

definition submission :: "string \<Rightarrow> jsval \<Rightarrow> body" where
  \<comment> \<open>what the publish form posts for Ana\<close>
  "submission img cash =
     \<lparr>userId = JNum (Finite 2), employeeName = JStr ''Ana'', providerName = JStr ''Padaria'',
      imageBase64 = JStr img, cashAmount = cash\<rparr>"

definition replies :: "string \<Rightarrow> genai_request \<Rightarrow> genai_result" where
  \<comment> \<open>a vision service that answers every request with the same text\<close>
  "replies t rq = Response (Some t)"

definition row :: "int \<Rightarrow> string \<Rightarrow> int \<Rightarrow> rat \<Rightarrow> int \<Rightarrow> records_row" where
  \<comment> \<open>a stored record of user 2 with an integer count and a REAL cash amount\<close>
  "row i n b c t =
     \<lparr>records_id = i, user_id = SInt 2, employee_name = Some n, provider_name = Some ''Padaria'',
      bread_count = SInt b, cash_amount = SReal (Finite c), image_url = Some ''data:,'',
      timestamp = t\<rparr>"


definition nine_days :: "records_row list" where
  \<comment> \<open>one record of Ana on each of nine consecutive days and a second record on the last\<close>
  "nine_days =
     map (\<lambda>d. row (d + 1) ''Ana'' (d + 1) (of_int d * 10) (86400 * d + 3600))
       [0, 1, 2, 3, 4, 5, 6, 7, 8]
     @ [row 10 ''Bia'' 5 7 (86400 * 8 + 7200)]"

definition old_overflow :: "records_row list" where
  \<comment> \<open>two records on day 0 whose counts add up to \<open>2\<^sup>6\<^sup>3\<close>, then one record on each of the
      eight days that follow\<close>
  "old_overflow =
     [row 1 ''Ana'' (2 ^ 62) 1 100, row 2 ''Bia'' (2 ^ 62) 1 200]
     @ map (\<lambda>d. row (d + 2) ''Ana'' d (of_int d * 10) (86400 * d + 3600)) [1, 2, 3, 4, 5, 6, 7, 8]"

definition publish :: "string \<Rightarrow> string \<Rightarrow> rat \<Rightarrow> int \<Rightarrow> request" where
  \<comment> \<open>a submission under the given employee name, served at the given time, for which the
      vision service replies with the given text\<close>
  "publish n t c now =
     CreateRecord (Some ''key'') (replies t) now
       ((submission data_url (JNum (Finite c)))\<lparr>employeeName := JStr n\<rparr>)"

definition ana_first :: "request list" where
  "ana_first = [publish ''Ana'' ''3 loaves'' 1500 100, publish ''Bia'' ''7'' 200 200,
                publish ''Ana'' [] 0 300]"

definition ana_last :: "request list" where
  \<comment> \<open>the same submissions, the first and the last exchanged\<close>
  "ana_last = [publish ''Ana'' [] 0 100, publish ''Bia'' ''7'' 200 200,
               publish ''Ana'' ''3 loaves'' 1500 300]"

definition big_first :: "request list" where
  \<comment> \<open>cash amounts \<open>2\<^sup>1\<^sup>0\<^sup>6\<close>, \<open>2\<^sup>5\<^sup>3\<close>, 1 and 1\<close>
  "big_first = [publish ''Ana'' ''3'' (2 ^ 106) 10, publish ''Ana'' ''0'' (2 ^ 53) 20,
                publish ''Ana'' ''1'' 1 30, publish ''Ana'' ''1'' 1 40]"

definition big_last :: "request list" where
  \<comment> \<open>the same submissions in the reverse order\<close>
  "big_last = [publish ''Ana'' ''1'' 1 10, publish ''Ana'' ''1'' 1 20,
               publish ''Ana'' ''0'' (2 ^ 53) 30, publish ''Ana'' ''3'' (2 ^ 106) 40]"

definition two_users :: database where
  \<comment> \<open>three records of user 2 and one of user 3; the last two carry the same time\<close>
  "two_users = db0\<lparr>records := [row 1 ''Ana'' 3 1500 100,
                                (row 2 ''Bia'' 7 200 200)\<lparr>user_id := SInt 3\<rparr>,
                                row 3 ''Ana'' 0 0 300,
                                row 4 ''Ana'' 2 10 300],
                    records_seq := 4\<rparr>"

definition later_requests :: "request list" where
  \<comment> \<open>Ana is renamed, lists her records and is deleted; then statistics and a signup\<close>
  "later_requests =
     [PutProfile (JNum (Finite 2)) (JStr ''ana@goitom.com'') (JStr ''Ana Maria'') JUndefined,
      GetRecords (Some ''2'') (Some ''employee''),
      DeleteUser ''2'',
      GetStatistics,
      Signup (JStr ''rui@goitom.com'') (JStr ''pw'') (JStr ''Rui'') JUndefined]"

section \<open>Auxiliary facts\<close>

subsection \<open>Rounding to a double\<close>

lemma round_even_of_int: "round_even (of_int z) = z"
  by (simp add: round_even_def)

lemma quotient_of_abs:
  assumes "x \<noteq> 0" and "quotient_of \<bar>x\<bar> = (a, b)"
  shows "0 < a" and "0 < b" and "\<bar>x\<bar> = of_int a / of_int b"
proof -
  show b: "0 < b" using assms(2) by (rule quotient_of_denom_pos)
  show eq: "\<bar>x\<bar> = of_int a / of_int b" using assms(2) by (rule quotient_of_div)
  have "0 < \<bar>x\<bar>" using assms(1) by simp
  with eq b show "0 < a" by (simp add: zero_less_divide_iff)
qed

lemma ilog2_lower:
  assumes "x \<noteq> 0"
  shows "2 powi (ilog2 x) \<le> \<bar>x\<bar>"
proof -
  obtain a b where ab: "quotient_of \<bar>x\<bar> = (a, b)" by (cases "quotient_of \<bar>x\<bar>")
  note q = quotient_of_abs [OF assms ab]
  let ?e = "bitlen a - bitlen b"
  show ?thesis
  proof (cases "(2::rat) powi ?e \<le> \<bar>x\<bar>")
    case True
    then show ?thesis by (simp add: ilog2_def ab)
  next
    case False
    have la: "1 \<le> bitlen a" using q(1) by (simp add: bitlen_ge_iff_power)
    have lb: "1 \<le> bitlen b" using q(2) by (simp add: bitlen_ge_iff_power)
    have a: "(2::rat) powi (bitlen a - 1) \<le> of_int a"
    proof -
      have "(2::int) ^ nat (bitlen a - 1) \<le> a" using bitlen_bounds [OF q(1)] by simp
      then have "(of_int ((2::int) ^ nat (bitlen a - 1)) :: rat) \<le> of_int a"
        by (simp only: of_int_le_iff)
      then show ?thesis using la by (simp add: power_int_def)
    qed
    have b: "(of_int b :: rat) \<le> 2 powi bitlen b"
    proof -
      have "b < (2::int) ^ nat (bitlen b)" using bitlen_bounds [OF q(2)] by simp
      then have "(of_int b :: rat) < of_int ((2::int) ^ nat (bitlen b))"
        by (simp only: of_int_less_iff)
      then show ?thesis using lb by (simp add: power_int_def)
    qed
    have pos: "(0::rat) < 2 powi bitlen b" by simp
    have "(2::rat) powi (?e - 1) = 2 powi (bitlen a - 1) / 2 powi bitlen b"
      by (simp add: power_int_diff)
    also have "\<dots> \<le> of_int a / 2 powi bitlen b"
      using a pos by (simp add: divide_right_mono)
    also have "\<dots> \<le> of_int a / of_int b"
      using b q(1) q(2) by (simp add: divide_left_mono)
    finally have "(2::rat) powi (?e - 1) \<le> \<bar>x\<bar>" using q(3) by simp
    moreover have "ilog2 x = ?e - 1" using False by (simp add: ilog2_def ab)
    ultimately show ?thesis by simp
  qed
qed

lemma rd_exact:
  fixes m :: int and k :: nat
  assumes m: "\<bar>m\<bar> < 2 ^ 53" and k: "k \<le> 1074"
  shows "rd (of_int m / 2 ^ k) = Finite (of_int m / 2 ^ k)"
proof (cases "m = 0")
  case True
  then show ?thesis by (simp add: rd_def)
next
  case False
  let ?x = "of_int m / 2 ^ k :: rat"
  have x0: "?x \<noteq> 0" using False by simp
  have xk: "?x = of_int m * 2 powi (- int k)"
    by (simp add: power_int_minus divide_inverse)
  have "\<bar>?x\<bar> = of_int \<bar>m\<bar> * 2 powi (- int k)" by (simp add: xk abs_mult)
  also have "\<dots> < 2 ^ 53 * 2 powi (- int k)"
  proof -
    have "(of_int \<bar>m\<bar> :: rat) < of_int (2 ^ 53)" using m by (simp only: of_int_less_iff)
    then show ?thesis by simp
  qed
  also have "\<dots> = 2 powi (53 - int k)"
    by (simp add: power_int_diff power_int_minus divide_inverse)
  finally have up: "\<bar>?x\<bar> < 2 powi (53 - int k)" .
  have lt: "(2::rat) powi ilog2 ?x < 2 powi (53 - int k)"
    using ilog2_lower [OF x0] up by (rule le_less_trans)
  have e: "ilog2 ?x < 53 - int k"
  proof (rule ccontr)
    assume "\<not> ilog2 ?x < 53 - int k"
    then have "53 - int k \<le> ilog2 ?x" by simp
    then have "(2::rat) powi (53 - int k) \<le> 2 powi ilog2 ?x"
      by (rule power_int_increasing) simp
    with lt show False by simp
  qed
  define q where "q = max (ilog2 ?x - 52) (- 1074)"
  have qk: "q \<le> - int k" using e k by (simp add: q_def)
  define j where "j = nat (- int k - q)"
  have jq: "int j = - int k - q" using qk by (simp add: j_def)
  have "?x / 2 powi q = of_int m * 2 powi (- int k - q)"
    by (simp add: xk power_int_diff)
  also have "\<dots> = of_int (m * 2 ^ j)"
    by (simp add: jq [symmetric] power_int_def)
  finally have r: "round_even (?x / 2 powi q) = m * 2 ^ j"
    by (simp only: round_even_of_int)
  have "(of_int (m * 2 ^ j) :: rat) * 2 powi q = of_int m * (2 powi int j * 2 powi q)"
    by (simp add: power_int_def)
  also have "\<dots> = of_int m * 2 powi (int j + q)"
    by (simp add: power_int_add)
  also have "\<dots> = ?x" by (simp add: jq xk)
  finally have y: "of_int (m * 2 ^ j) * 2 powi q = ?x" .
  have "\<bar>m * 2 ^ j\<bar> = \<bar>m\<bar> * 2 ^ j" by (simp add: abs_mult)
  also have "\<dots> < 2 ^ 53 * 2 ^ j" using m by simp
  also have "\<dots> = (2::int) ^ (53 + j)" by (simp add: power_add)
  also have "\<dots> \<le> 2 ^ nat (1024 - q)"
    by (rule power_increasing) (use jq in simp_all)
  finally have small: "\<not> overflows (m * 2 ^ j) q"
    using qk by (simp add: overflows_def)
  have "rd ?x =
      (if overflows (round_even (?x / 2 powi q)) q then (if 0 < ?x then PosInf else NegInf)
       else Finite (of_int (round_even (?x / 2 powi q)) * 2 powi q))"
    using x0 by (simp only: rd_def Let_def q_def if_False)
  also have "\<dots> = Finite (of_int (m * 2 ^ j) * 2 powi q)"
    using small by (simp only: r if_False)
  also have "\<dots> = Finite ?x" by (simp only: y)
  finally show ?thesis .
qed

lemma round_even_nonneg: "0 \<le> x \<Longrightarrow> 0 \<le> round_even x"
  by (simp add: round_even_def Let_def)

lemma rd_nonneg:
  assumes "0 \<le> x"
  shows "rd x = PosInf \<or> (\<exists>y. rd x = Finite y \<and> 0 \<le> y)"
proof (cases "x = 0")
  case True
  then show ?thesis by (simp add: rd_def)
next
  case False
  define q where "q = max (ilog2 x - 52) (- 1074)"
  have "0 \<le> x / 2 powi q" using assms by simp
  then have "0 \<le> round_even (x / 2 powi q)" by (rule round_even_nonneg)
  then have "(0::rat) \<le> of_int (round_even (x / 2 powi q)) * 2 powi q" by simp
  then show ?thesis
    using False assms by (simp add: rd_def Let_def q_def [symmetric])
qed

lemma rd_of_nat_exact:
  assumes "n \<le> 2 ^ 53"
  shows "rd (of_nat n) = Finite (of_nat n)"
proof (cases "n = 2 ^ 53")
  case True
  have "rd (2 ^ 53) = Finite (2 ^ 53)" by code_simp
  with True show ?thesis by simp
next
  case False
  with assms have "n < 2 ^ 53" by simp
  then have "int n < int (2 ^ 53)" by (simp only: of_nat_less_iff)
  then have "\<bar>int n\<bar> < 2 ^ 53" by simp
  from rd_exact [OF this, of 0] show ?thesis by simp
qed

subsection \<open>Digits of a reply\<close>

lemma is_digit_not_whitespace: "is_whitespace c \<Longrightarrow> \<not> is_digit c"
  by (auto simp: is_whitespace_def is_digit_def)

lemma filter_dropWhile_other:
  assumes "\<And>x. Q x \<Longrightarrow> \<not> P x"
  shows "filter P (dropWhile Q xs) = filter P xs"
  using assms by (induction xs) auto

lemma digits_trim: "filter is_digit (trim s) = filter is_digit s"
proof -
  have "filter is_digit (trim s) = rev (filter is_digit (dropWhile is_whitespace (rev (dropWhile is_whitespace s))))"
    by (simp add: trim_def rev_filter)
  also have "\<dots> = rev (filter is_digit (rev (dropWhile is_whitespace s)))"
    by (simp add: filter_dropWhile_other is_digit_not_whitespace)
  also have "\<dots> = filter is_digit (dropWhile is_whitespace s)"
    by (simp add: rev_filter)
  also have "\<dots> = filter is_digit s"
    by (simp add: filter_dropWhile_other is_digit_not_whitespace)
  finally show ?thesis .
qed

lemma takeWhile_filter_same: "takeWhile P (filter P xs) = filter P xs"
  by (induction xs) auto


lemma rd_zero: "rd 0 = Finite 0"
  by (simp add: rd_def)

lemma rd_not_NaN: "rd x \<noteq> NaN"
  by (simp add: rd_def Let_def)

lemma parseInt_or_zero:
  "(let n = parseInt ds in if truthy (JNum n) then n else Finite 0)
     = rd (of_nat (decimal_value (takeWhile is_digit ds)))"
proof (cases "takeWhile is_digit ds = []")
  case True
  then show ?thesis by (simp add: parseInt_def decimal_value_def rd_zero)
next
  case False
  define v where "v = rd (of_nat (decimal_value (takeWhile is_digit ds)))"
  have p: "parseInt ds = v" using False by (simp add: parseInt_def v_def)
  have "v \<noteq> NaN" by (simp add: v_def rd_not_NaN)
  then have "(if truthy (JNum v) then v else Finite 0) = v" by simp
  then show ?thesis by (simp add: p v_def [symmetric])
qed

lemma decimal_value_countText:
  "decimal_value (filter is_digit (countText t)) = decimal_value (reply_digits t)"
proof (cases t)
  case None
  then show ?thesis
    by (simp add: countText_def reply_digits_def decimal_value_def digit_value_def is_digit_def)
next
  case (Some s)
  show ?thesis
  proof (cases "trim s = []")
    case True
    then have "filter is_digit s = []" using digits_trim [of s] by simp
    with True Some show ?thesis
      by (simp add: countText_def reply_digits_def decimal_value_def digit_value_def is_digit_def)
  next
    case False
    with Some show ?thesis by (simp add: countText_def reply_digits_def digits_trim)
  qed
qed

lemma breadCount_rd: "breadCount t = rd (of_nat (decimal_value (reply_digits t)))"
  unfolding breadCount_def parseInt_or_zero replace_non_digits_def takeWhile_filter_same
  by (simp only: decimal_value_countText)


subsection \<open>Splitting the image payload, inserting a record\<close>

lemma split_not_Nil: "split c s \<noteq> []"
  by (induction s) (auto split: list.splits)

lemma split_without: "c \<notin> set s \<Longrightarrow> split c s = [s]"
  by (induction s) auto

lemma split_at_first: "c \<notin> set p \<Longrightarrow> split c (p @ c # d) = p # split c d"
  by (induction p) auto

lemma hd_split: "hd (split c s) = takeWhile (\<lambda>x. x \<noteq> c) s"
  by (induction s) (auto simp: split_not_Nil split: list.splits)

lemma inline_data_without: "CHR '','' \<notin> set s \<Longrightarrow> inline_data s = JUndefined"
  by (simp add: inline_data_def split_without)

lemma inline_data_after:
  assumes "CHR '','' \<notin> set p"
  shows "inline_data (p @ CHR '','' # d) = JStr (takeWhile (\<lambda>x. x \<noteq> CHR '','') d)"
proof -
  obtain y ys where s: "split CHR '','' d = y # ys"
    using split_not_Nil [of "CHR '',''" d] by (cases "split CHR '','' d") auto
  then have "y = takeWhile (\<lambda>x. x \<noteq> CHR '','') d" using hd_split [of "CHR '',''" d] by simp
  then show ?thesis using assms s by (simp add: inline_data_def split_at_first)
qed

lemma inline_data_eq:
  "inline_data s =
     (if CHR '','' \<in> set s
      then JStr (takeWhile (\<lambda>x. x \<noteq> CHR '','') (tl (dropWhile (\<lambda>x. x \<noteq> CHR '','') s)))
      else JUndefined)"
proof (cases "CHR '','' \<in> set s")
  case False
  then show ?thesis by (simp add: inline_data_without)
next
  case True
  define p where "p = takeWhile (\<lambda>x. x \<noteq> CHR '','') s"
  define d where "d = tl (dropWhile (\<lambda>x. x \<noteq> CHR '','') s)"
  have "dropWhile (\<lambda>x. x \<noteq> CHR '','') s \<noteq> []" using True by (simp add: dropWhile_eq_Nil_conv)
  moreover have "hd (dropWhile (\<lambda>x. x \<noteq> CHR '','') s) = CHR '',''"
    using True hd_dropWhile [of "\<lambda>x. x \<noteq> CHR '',''" s] by (auto simp: dropWhile_eq_Nil_conv)
  ultimately have dw: "dropWhile (\<lambda>x. x \<noteq> CHR '','') s = CHR '','' # d"
    by (cases "dropWhile (\<lambda>x. x \<noteq> CHR '','') s") (auto simp: d_def)
  have "s = takeWhile (\<lambda>x. x \<noteq> CHR '','') s @ dropWhile (\<lambda>x. x \<noteq> CHR '','') s"
    by (simp only: takeWhile_dropWhile_id)
  then have s: "s = p @ CHR '','' # d" by (simp only: p_def [symmetric] dw)
  have "CHR '','' \<notin> set p" by (auto simp: p_def dest: set_takeWhileD)
  from inline_data_after [OF this, of d] have "inline_data s = JStr (takeWhile (\<lambda>x. x \<noteq> CHR '','') d)"
    by (simp only: s [symmetric])
  then show ?thesis using True by (simp only: d_def if_True)
qed

lemma createRecord_cases:
  "(key = None \<or> key = Some []) \<and>
     createRecord eng key gen now b db =
       \<lparr>reply = Status 500 ''Gemini API key not configured'', store = db, sent = []\<rparr>
   \<or> key \<noteq> None \<and> key \<noteq> Some [] \<and> (\<forall>img. imageBase64 b \<noteq> JStr img) \<and>
     createRecord eng key gen now b db =
       \<lparr>reply = Status 500 ''Failed to process image'', store = db, sent = []\<rparr>
   \<or> key \<noteq> None \<and> key \<noteq> Some [] \<and>
     (\<exists>img. imageBase64 b = JStr img \<and>
       (gen (count_request img) = Throws \<or>
        (\<exists>t e. gen (count_request img) = Response t \<and>
           insert_record eng now (userId b) (employeeName b) (providerName b)
             (JNum (breadCount t))
             (if cashAmount b = JUndefined then JNum (Finite 0) else cashAmount b)
             (JStr img) db = Inl e)) \<and>
       createRecord eng key gen now b db =
         \<lparr>reply = Status 500 ''Failed to process image'', store = db,
          sent = [count_request img]\<rparr>)
   \<or> key \<noteq> None \<and> key \<noteq> Some [] \<and>
     (\<exists>img t i db'. imageBase64 b = JStr img \<and> gen (count_request img) = Response t \<and>
        insert_record eng now (userId b) (employeeName b) (providerName b)
          (JNum (breadCount t))
          (if cashAmount b = JUndefined then JNum (Finite 0) else cashAmount b)
          (JStr img) db = Inr (i, db') \<and>
        createRecord eng key gen now b db =
          \<lparr>reply = Json (i, breadCount t), store = db', sent = [count_request img]\<rparr>)"
proof (cases "key = None \<or> key = Some []")
  case True
  then show ?thesis by (auto simp: createRecord_def Let_def)
next
  case key: False
  show ?thesis
  proof (cases "imageBase64 b")
    case (JStr img)
    show ?thesis
    proof (cases "gen (count_request img)")
      case Throws
      with key JStr show ?thesis by (simp add: createRecord_def Let_def)
    next
      case (Response t)
      show ?thesis
      proof (cases "insert_record eng now (userId b) (employeeName b) (providerName b)
          (JNum (breadCount t))
          (if cashAmount b = JUndefined then JNum (Finite 0) else cashAmount b)
          (JStr img) db")
        case (Inl e)
        with key JStr Response show ?thesis by (simp add: createRecord_def Let_def)
      next
        case (Inr p)
        with key JStr Response show ?thesis
          by (cases p) (simp add: createRecord_def Let_def)
      qed
    qed
  qed (use key in \<open>simp_all add: createRecord_def Let_def\<close>)
qed

lemma fold_max_ge: "s \<le> fold max ids s \<and> (\<forall>x\<in>set ids. x \<le> fold max ids (s::int))"
proof (induction ids arbitrary: s)
  case Nil
  then show ?case by simp
next
  case (Cons a ids)
  from Cons [of "max a s"] show ?case by auto
qed

lemma next_rowid_fresh: "next_rowid s ids \<notin> set ids"
  using fold_max_ge [of s ids] by (auto simp: next_rowid_def)

lemma insert_record_appends:
  assumes "insert_record eng now a1 a2 a3 a4 a5 a6 db = Inr (i, db')"
  shows "\<exists>r v4 v5. records db' = records db @ [r] \<and> users db' = users db \<and> users_seq db' = users_seq db
           \<and> records_id r = i \<and> i \<notin> records_id ` set (records db)
           \<and> bind a4 = Inr v4 \<and> bread_count r = integer_affinity eng v4
           \<and> bind a5 = Inr v5 \<and> cash_amount r = real_affinity eng v5
           \<and> timestamp r = now"
  using assms next_rowid_fresh [of "records_seq db" "map records_id (records db)"]
  by (auto simp: insert_record_def Let_def split: sum.splits if_splits)

lemma breadCount_not_NaN: "breadCount t \<noteq> NaN"
  by (simp add: breadCount_rd rd_not_NaN)

lemma real_to_integer_eq: "d \<noteq> NaN \<Longrightarrow> sql_eq (real_to_integer d) (SReal d)"
  by (cases d) auto

lemma posted_cashAmount_NaN: "parseFloat s = NaN \<Longrightarrow> posted_cashAmount s = JNum (Finite 0)"
  by (simp add: posted_cashAmount_def)

lemma posted_cashAmount_Finite:
  "parseFloat s = Finite q \<Longrightarrow> posted_cashAmount s = JNum (Finite q)"
  by (cases "q = 0") (simp_all add: posted_cashAmount_def)

lemma createRecord_JsonE:
  assumes ok: "reply (createRecord eng key gen now b db) = Json (i, n)"
  obtains img t db' where "key \<noteq> None" "key \<noteq> Some []" "imageBase64 b = JStr img"
    "gen (count_request img) = Response t" "n = breadCount t"
    "insert_record eng now (userId b) (employeeName b) (providerName b)
          (JNum (breadCount t))
          (if cashAmount b = JUndefined then JNum (Finite 0) else cashAmount b)
          (JStr img) db = Inr (i, db')"
    "createRecord eng key gen now b db =
          \<lparr>reply = Json (i, breadCount t), store = db', sent = [count_request img]\<rparr>"
proof -
  from createRecord_cases [of key eng gen now b db]
  consider
    (config) "reply (createRecord eng key gen now b db) = Status 500 ''Gemini API key not configured''"
  | (failed) "reply (createRecord eng key gen now b db) = Status 500 ''Failed to process image''"
  | (json) img t j db' where "key \<noteq> None" "key \<noteq> Some []" "imageBase64 b = JStr img"
      "gen (count_request img) = Response t"
      "insert_record eng now (userId b) (employeeName b) (providerName b)
          (JNum (breadCount t))
          (if cashAmount b = JUndefined then JNum (Finite 0) else cashAmount b)
          (JStr img) db = Inr (j, db')"
      "createRecord eng key gen now b db =
          \<lparr>reply = Json (j, breadCount t), store = db', sent = [count_request img]\<rparr>"
    by (elim disjE conjE exE) simp_all
  then show thesis
  proof cases
    case config
    with ok show thesis by simp
  next
    case failed
    with ok show thesis by simp
  next
    case json
    from json(6) ok have "j = i" "n = breadCount t" by simp_all
    with json that show thesis by simp
  qed
qed

subsection \<open>Ordering\<close>

lemma mset_insert_by: "mset (insert_by le x xs) = add_mset x (mset xs)"
  by (induction xs) auto

lemma mset_order_by: "mset (order_by le xs) = mset xs"
  by (induction xs) (auto simp: order_by_def mset_insert_by)

lemma set_order_by: "set (order_by le xs) = set xs"
  using mset_order_by [of le xs] by (metis set_mset_mset)

lemma length_order_by: "length (order_by le xs) = length xs"
  using mset_order_by [of le xs] by (metis size_mset)

lemma set_insert_by: "set (insert_by le x xs) = insert x (set xs)"
  using mset_insert_by [of le x xs] by (metis set_mset_add_mset_insert set_mset_mset)

lemma sorted_insert_by:
  assumes total: "\<And>a b. le a b \<or> le b a" and trans: "\<And>a b c. le a b \<Longrightarrow> le b c \<Longrightarrow> le a c"
  shows "sorted_wrt le xs \<Longrightarrow> sorted_wrt le (insert_by le x xs)"
proof (induction xs)
  case Nil
  then show ?case by simp
next
  case (Cons y ys)
  show ?case
  proof (cases "le x y")
    case True
    with Cons.prems trans show ?thesis by auto
  next
    case False
    with total have "le y x" by blast
    with Cons False show ?thesis by (auto simp: set_insert_by)
  qed
qed

lemma sorted_order_by:
  assumes "\<And>a b. le a b \<or> le b a" and "\<And>a b c. le a b \<Longrightarrow> le b c \<Longrightarrow> le a c"
  shows "sorted_wrt le (order_by le xs)"
proof (induction xs)
  case Nil
  then show ?case by (simp add: order_by_def)
next
  case (Cons x xs)
  have "order_by le (x # xs) = insert_by le x (order_by le xs)" by (simp add: order_by_def)
  with sorted_insert_by [of le, OF assms Cons] show ?case by simp
qed

lemma filter_insert_by:
  assumes "\<And>y. P x \<Longrightarrow> P y \<Longrightarrow> le x y"
  shows "filter P (insert_by le x xs) = (if P x then x # filter P xs else filter P xs)"
  using assms by (induction xs) auto

lemma order_by_stable:
  assumes "\<And>x y. P x \<Longrightarrow> P y \<Longrightarrow> le x y"
  shows "filter P (order_by le xs) = filter P xs"
proof (induction xs)
  case Nil
  then show ?case by (simp add: order_by_def)
next
  case (Cons x xs)
  have "order_by le (x # xs) = insert_by le x (order_by le xs)" by (simp add: order_by_def)
  then show ?case using Cons assms by (simp add: filter_insert_by [of P x le])
qed

subsection \<open>Grouping\<close>

lemma group_by_snoc: "group_by key (rows @ [r]) = add_to_group key r (group_by key rows)"
  by (simp add: group_by_def)

lemma keys_add_to_group: "fst ` set (add_to_group key r gs) = insert (key r) (fst ` set gs)"
proof (induction gs)
  case Nil
  then show ?case by simp
next
  case (Cons g gs)
  obtain k rs where g: "g = (k, rs)" by (cases g)
  show ?case
  proof (cases "key r = k")
    case True
    with g show ?thesis by simp
  next
    case False
    with g Cons show ?thesis by (simp add: insert_commute)
  qed
qed

lemma distinct_add_to_group:
  "distinct (map fst gs) \<Longrightarrow> distinct (map fst (add_to_group key r gs))"
proof (induction gs)
  case Nil
  then show ?case by simp
next
  case (Cons g gs)
  obtain k rs where g: "g = (k, rs)" by (cases g)
  show ?case
  proof (cases "key r = k")
    case True
    with Cons.prems g show ?thesis by simp
  next
    case False
    from Cons.prems g have "k \<notin> fst ` set gs" by simp
    with False have "k \<notin> fst ` set (add_to_group key r gs)"
      by (simp add: keys_add_to_group)
    moreover from Cons have "distinct (map fst (add_to_group key r gs))" by simp
    ultimately show ?thesis using False g by simp
  qed
qed

lemma members_add_to_group:
  assumes "(k, rs) \<in> set (add_to_group key r gs)" and "distinct (map fst gs)"
  shows "(key r = k \<and> ((k, butlast rs) \<in> set gs \<and> rs = butlast rs @ [r]
            \<or> k \<notin> fst ` set gs \<and> rs = [r]))
         \<or> (key r \<noteq> k \<and> (k, rs) \<in> set gs)"
  using assms
proof (induction gs)
  case Nil
  then show ?case by simp
next
  case (Cons g gs)
  obtain k' rs' where g: "g = (k', rs')" by (cases g)
  show ?case
  proof (cases "key r = k'")
    case True
    with Cons.prems g show ?thesis by (auto simp: image_iff)
  next
    case False
    with Cons g show ?thesis by (auto simp: image_iff)
  qed
qed

lemma group_by_correct:
  "distinct (map fst (group_by key rows))
   \<and> fst ` set (group_by key rows) = key ` set rows
   \<and> (\<forall>(k, rs) \<in> set (group_by key rows). rs = filter (\<lambda>r. key r = k) rows)"
proof (induction rows rule: rev_induct)
  case Nil
  then show ?case by (simp add: group_by_def)
next
  case (snoc r rows)
  let ?gs = "group_by key rows"
  from snoc have d: "distinct (map fst ?gs)" and k: "fst ` set ?gs = key ` set rows"
    and m: "\<And>k rs. (k, rs) \<in> set ?gs \<Longrightarrow> rs = filter (\<lambda>r. key r = k) rows"
    by auto
  have "distinct (map fst (add_to_group key r ?gs))" using d by (rule distinct_add_to_group)
  moreover have "fst ` set (add_to_group key r ?gs) = key ` set (rows @ [r])"
    using k by (auto simp: keys_add_to_group)
  moreover have "rs = filter (\<lambda>x. key x = k') (rows @ [r])"
    if "(k', rs) \<in> set (add_to_group key r ?gs)" for k' rs
  proof -
    from members_add_to_group [OF that d]
    consider (old) "key r = k'" "(k', butlast rs) \<in> set ?gs" "rs = butlast rs @ [r]"
      | (new) "key r = k'" "k' \<notin> fst ` set ?gs" "rs = [r]"
      | (other) "key r \<noteq> k'" "(k', rs) \<in> set ?gs"
      by blast
    then show ?thesis
    proof cases
      case old
      from m [OF old(2)] have "butlast rs = filter (\<lambda>x. key x = k') rows" .
      with old show ?thesis by (metis (mono_tags, lifting) filter.simps filter_append)
    next
      case new
      from new(2) k have "k' \<notin> key ` set rows" by simp
      then have "filter (\<lambda>x. key x = k') rows = []"
        by (auto simp: filter_empty_conv image_iff)
      with new show ?thesis by simp
    next
      case other
      with m [OF other(2)] show ?thesis by simp
    qed
  qed
  ultimately show ?case by (auto simp: group_by_snoc)
qed

lemma collect_map_Inr: "collect (map Inr ys) = Inr ys"
  by (induction ys) auto

lemma collect_InrD: "collect xs = Inr ys \<Longrightarrow> xs = map Inr ys"
proof (induction xs arbitrary: ys)
  case Nil
  then show ?case by simp
next
  case (Cons x xs)
  show ?case
  proof (cases x)
    case (Inl e)
    with Cons.prems show ?thesis by simp
  next
    case (Inr y)
    with Cons.prems obtain zs where zs: "collect xs = Inr zs" "ys = y # zs"
      by (auto split: sum.splits)
    with Cons.IH [of zs] Inr show ?thesis by simp
  qed
qed

subsection \<open>Exact sums\<close>

lemma sum_integers_exact:
  assumes "0 \<le> acc" and "\<forall>i\<in>set xs. 0 \<le> i" and "acc + sum_list xs < 2 ^ 63"
  shows "sum_integers acc xs = Some (acc + sum_list xs)"
  using assms
proof (induction xs arbitrary: acc)
  case Nil
  then show ?case by simp
next
  case (Cons i xs)
  have nn: "0 \<le> sum_list xs" using Cons.prems(2) by (simp add: sum_list_nonneg)
  have "int64 (acc + i)" using Cons.prems nn by (simp add: int64_def)
  moreover have "sum_integers (acc + i) xs = Some (acc + i + sum_list xs)"
    using Cons.prems by (intro Cons.IH) (simp_all add: add.assoc)
  ultimately show ?case by (simp add: add.assoc)
qed

lemma sqlite_sum_counts:
  assumes "vs \<noteq> []" and "exact_counts vs"
  shows "sqlite_sum eng vs = Inr (SInt (sum_list (map integer_of vs)))"
proof -
  from assms(2) have all: "\<forall>v\<in>set vs. is_integer v \<and> 0 \<le> integer_of v"
    and lt: "sum_list (map integer_of vs) < 2 ^ 63"
    by (simp_all add: exact_counts_def list_all_iff)
  have nn: "filter (\<lambda>v. v \<noteq> SNull) vs = vs"
    using all by (auto simp: filter_id_conv)
  have op: "map (sum_operand eng) vs = vs"
  proof (rule map_idI)
    fix v assume "v \<in> set vs"
    with all have "is_integer v" by simp
    then show "sum_operand eng v = v" by (cases v) simp_all
  qed
  have ints: "list_all is_integer vs" using all by (simp add: list_all_iff)
  have "sum_integers 0 (map integer_of vs) = Some (0 + sum_list (map integer_of vs))"
    using all lt by (intro sum_integers_exact) auto
  then show ?thesis using assms(1) ints by (simp add: sqlite_sum_def nn op)
qed

lemma scaled_add: "scaled k a + scaled k b = scaled k (a + b)"
  by (simp add: scaled_def add_divide_distrib)

lemma scaled_minus: "- scaled k a = scaled k (- a)"
  by (simp add: scaled_def)

lemma scaled_zero: "scaled k 0 = 0"
  by (simp add: scaled_def)

lemma rd_scaled: "\<bar>m\<bar> < 2 ^ 53 \<Longrightarrow> k \<le> 1074 \<Longrightarrow> rd (scaled k m) = Finite (scaled k m)"
  unfolding scaled_def by (rule rd_exact)

lemma kbn_step_exact:
  assumes k: "k \<le> 1074" and b: "\<bar>a\<bar> + \<bar>m\<bar> < 2 ^ 53"
  shows "kbn_step (Finite (scaled k a), Finite 0) (Finite (scaled k m))
           = (Finite (scaled k (a + m)), Finite 0)"
proof -
  have am: "\<bar>a + m\<bar> < 2 ^ 53" and a: "\<bar>- a\<bar> < 2 ^ 53" and m: "\<bar>- m\<bar> < 2 ^ 53" using b by auto
  have t: "dadd (Finite (scaled k a)) (Finite (scaled k m)) = Finite (scaled k (a + m))"
    by (simp add: scaled_add rd_scaled [OF am k])
  have s1: "dsub (Finite (scaled k a)) (Finite (scaled k (a + m))) = Finite (scaled k (- m))"
    using rd_scaled [OF m k] by (simp add: dsub_def scaled_minus scaled_add)
  have s2: "dsub (Finite (scaled k m)) (Finite (scaled k (a + m))) = Finite (scaled k (- a))"
    using rd_scaled [OF a k] by (simp add: dsub_def scaled_minus scaled_add)
  have c1: "dadd (Finite (scaled k (- m))) (Finite (scaled k m)) = Finite 0"
    by (simp add: scaled_add scaled_zero rd_zero)
  have c2: "dadd (Finite (scaled k (- a))) (Finite (scaled k a)) = Finite 0"
    by (simp add: scaled_add scaled_zero rd_zero)
  have z: "dadd (Finite 0) (Finite 0) = Finite 0" by (simp add: rd_zero)
  show ?thesis by (simp only: kbn_step.simps Let_def t s1 s2 c1 c2 z if_cancel)
qed

lemma foldl_kbn_exact:
  assumes k: "k \<le> 1074"
  shows "\<bar>a\<bar> + sum_list (map abs ms) < 2 ^ 53 \<Longrightarrow>
     foldl kbn_step (Finite (scaled k a), Finite 0) (map (\<lambda>m. Finite (scaled k m)) ms)
       = (Finite (scaled k (a + sum_list ms)), Finite 0)"
proof (induction ms arbitrary: a)
  case Nil
  then show ?case by simp
next
  case (Cons m ms)
  have nn: "0 \<le> sum_list (map abs ms)" by (rule sum_list_nonneg) auto
  have b: "\<bar>a\<bar> + \<bar>m\<bar> < 2 ^ 53" using Cons.prems nn by simp
  have "\<bar>a + m\<bar> + sum_list (map abs ms) < 2 ^ 53" using Cons.prems by simp
  from Cons.IH [OF this] kbn_step_exact [OF k b] show ?case by (simp add: add.assoc)
qed

lemma foldl_dadd_exact:
  assumes k: "k \<le> 1074"
  shows "\<bar>a\<bar> + sum_list (map abs ms) < 2 ^ 53 \<Longrightarrow>
     foldl dadd (Finite (scaled k a)) (map (\<lambda>m. Finite (scaled k m)) ms)
       = Finite (scaled k (a + sum_list ms))"
proof (induction ms arbitrary: a)
  case Nil
  then show ?case by simp
next
  case (Cons m ms)
  have nn: "0 \<le> sum_list (map abs ms)" by (rule sum_list_nonneg) auto
  have am: "\<bar>a + m\<bar> < 2 ^ 53" using Cons.prems nn by simp
  have "\<bar>a + m\<bar> + sum_list (map abs ms) < 2 ^ 53" using Cons.prems by simp
  from Cons.IH [OF this] show ?case
    by (simp add: scaled_add rd_scaled [OF am k] add.assoc)
qed

lemma sum_reals_scaled:
  assumes k: "k \<le> 1074" and b: "sum_list (map abs ms) < 2 ^ 53"
  shows "sum_reals c (map (\<lambda>m. Finite (scaled k m)) ms) = Finite (scaled k (sum_list ms))"
proof -
  have b0: "\<bar>0::int\<bar> + sum_list (map abs ms) < 2 ^ 53" using b by simp
  have s: "\<bar>sum_list ms\<bar> < 2 ^ 53"
    using b sum_list_abs [of ms] by simp
  have f: "dadd (Finite (scaled k (sum_list ms))) (Finite 0) = Finite (scaled k (sum_list ms))"
    by (simp add: rd_scaled [OF s k])
  show ?thesis
    using foldl_kbn_exact [OF k b0] foldl_dadd_exact [OF k b0] f
    by (simp add: sum_reals_def scaled_zero)
qed

lemma dyadic_scaled:
  assumes "dyadic k q"
  shows "q = scaled k \<lfloor>q * 2 ^ k\<rfloor>"
proof -
  from assms have "of_int \<lfloor>q * 2 ^ k\<rfloor> = q * 2 ^ k" unfolding dyadic_def .
  then have "scaled k \<lfloor>q * 2 ^ k\<rfloor> = q * 2 ^ k / 2 ^ k"
    unfolding scaled_def by (rule arg_cong [where f = "\<lambda>x. x / 2 ^ k"])
  then show ?thesis by simp
qed

lemma of_int_sum_list_rat: "(of_int (sum_list xs) :: rat) = sum_list (map of_int xs)"
  by (induction xs) simp_all

lemma sqlite_sum_amounts:
  assumes ne: "vs \<noteq> []" and ex: "exact_amounts k vs"
  shows "sqlite_sum eng vs = Inr (SReal (Finite (sum_list (map amount vs))))"
proof -
  from ex have k: "k \<le> 1074"
    and all: "\<forall>v\<in>set vs. finite_real v \<and> dyadic k (amount v)"
    and lt: "sum_list (map (\<lambda>v. \<bar>amount v\<bar>) vs) * 2 ^ k < 2 ^ 53"
    by (simp_all add: exact_amounts_def list_all_iff)
  define ms where "ms = map (\<lambda>v. \<lfloor>amount v * 2 ^ k\<rfloor>) vs"
  have v: "v = SReal (Finite (amount v))" if "v \<in> set vs" for v
  proof -
    from that all have "finite_real v" by simp
    then show ?thesis by (cases v rule: finite_real.cases) simp_all
  qed
  have sc: "amount v = scaled k \<lfloor>amount v * 2 ^ k\<rfloor>" if "v \<in> set vs" for v
    using that all by (intro dyadic_scaled) simp
  have reals: "map real_of vs = map (\<lambda>m. Finite (scaled k m)) ms"
    unfolding ms_def map_map
  proof (rule map_cong [OF refl])
    fix x assume x: "x \<in> set vs"
    from v [OF x] have "real_of x = Finite (amount x)" by (metis real_of.simps(2))
    with sc [OF x] show "real_of x = ((\<lambda>m. Finite (scaled k m)) \<circ> (\<lambda>v. \<lfloor>amount v * 2 ^ k\<rfloor>)) x"
      by simp
  qed
  have abs_eq: "\<bar>of_int \<lfloor>amount x * 2 ^ k\<rfloor> :: rat\<bar> = \<bar>amount x\<bar> * 2 ^ k" if "x \<in> set vs" for x
  proof -
    from that all have "dyadic k (amount x)" by simp
    then have "(of_int \<lfloor>amount x * 2 ^ k\<rfloor> :: rat) = amount x * 2 ^ k"
      unfolding dyadic_def .
    then have "\<bar>of_int \<lfloor>amount x * 2 ^ k\<rfloor> :: rat\<bar> = \<bar>amount x * 2 ^ k\<bar>"
      by (rule arg_cong [where f = abs])
    moreover have "\<bar>(2::rat) ^ k\<bar> = 2 ^ k" by simp
    ultimately show ?thesis by (simp only: abs_mult)
  qed
  have "(of_int (sum_list (map abs ms)) :: rat) = sum_list (map (\<lambda>v. \<bar>amount v\<bar> * 2 ^ k) vs)"
    unfolding ms_def map_map of_int_sum_list_rat
    by (rule arg_cong [where f = sum_list], rule map_cong [OF refl])
      (simp only: o_def of_int_abs abs_eq)
  also have "\<dots> = sum_list (map (\<lambda>v. \<bar>amount v\<bar>) vs) * 2 ^ k"
    by (simp add: sum_list_mult_const)
  also have "\<dots> < 2 ^ 53" by (rule lt)
  finally have "(of_int (sum_list (map abs ms)) :: rat) < of_int (2 ^ 53)" by simp
  then have b: "sum_list (map abs ms) < 2 ^ 53" by (simp only: of_int_less_iff)
  have "scaled k (sum_list ms) = sum_list (map (scaled k) ms)"
    by (induction ms) (simp_all add: scaled_zero scaled_add [symmetric])
  also have "\<dots> = sum_list (map amount vs)"
    unfolding ms_def map_map
    by (rule arg_cong [where f = sum_list], rule map_cong [OF refl]) (simp add: sc [symmetric])
  finally have total: "scaled k (sum_list ms) = sum_list (map amount vs)" .
  have nn: "filter (\<lambda>v. v \<noteq> SNull) vs = vs"
    using v by (auto simp: filter_id_conv)
  have op: "map (sum_operand eng) vs = vs"
  proof (rule map_idI)
    fix x assume "x \<in> set vs"
    from v [OF this] show "sum_operand eng x = x" by (metis sum_operand.simps(4))
  qed
  have "\<not> list_all is_integer vs"
  proof -
    from ne obtain x where x: "x \<in> set vs" by (cases vs) auto
    from v [OF x] have "\<not> is_integer x" by (metis is_integer.simps(3))
    with x show ?thesis by (auto simp: list_all_iff)
  qed
  then show ?thesis
    using ne sum_reals_scaled [OF k b, of "compensated_sum eng"]
    by (simp add: sqlite_sum_def nn op reals total real_result_def)
qed

lemma exact_counts_filter:
  assumes "exact_counts (map f rs)"
  shows "exact_counts (map f (filter P rs))"
proof -
  from assms have all: "\<forall>r\<in>set rs. is_integer (f r) \<and> 0 \<le> integer_of (f r)"
    and lt: "sum_list (map (\<lambda>r. integer_of (f r)) rs) < 2 ^ 63"
    by (simp_all add: exact_counts_def list_all_iff comp_def)
  have "sum_list (map (\<lambda>r. integer_of (f r)) (filter P rs)) \<le> sum_list (map (\<lambda>r. integer_of (f r)) rs)"
    using all by (induction rs) (auto simp: add_increasing)
  with lt all show ?thesis by (auto simp: exact_counts_def list_all_iff comp_def)
qed

lemma exact_amounts_filter:
  assumes "exact_amounts k (map f rs)"
  shows "exact_amounts k (map f (filter P rs))"
proof -
  from assms have k: "k \<le> 1074"
    and all: "\<forall>r\<in>set rs. finite_real (f r) \<and> dyadic k (amount (f r))"
    and lt: "sum_list (map (\<lambda>r. \<bar>amount (f r)\<bar>) rs) * 2 ^ k < 2 ^ 53"
    by (simp_all add: exact_amounts_def list_all_iff comp_def)
  have "sum_list (map (\<lambda>r. \<bar>amount (f r)\<bar>) (filter P rs)) \<le> sum_list (map (\<lambda>r. \<bar>amount (f r)\<bar>) rs)"
    by (induction rs) (auto simp: add_increasing)
  then have "sum_list (map (\<lambda>r. \<bar>amount (f r)\<bar>) (filter P rs)) * 2 ^ k
      \<le> sum_list (map (\<lambda>r. \<bar>amount (f r)\<bar>) rs) * 2 ^ k"
    by (rule mult_right_mono) simp
  from this lt have "sum_list (map (\<lambda>r. \<bar>amount (f r)\<bar>) (filter P rs)) * 2 ^ k < 2 ^ 53"
    by (rule le_less_trans)
  with k all show ?thesis by (auto simp: exact_amounts_def list_all_iff comp_def)
qed

subsection \<open>Grouped totals\<close>

lemma sql_le_total: "sql_le a b \<or> sql_le b a"
  by (auto simp: sql_le_def pair_le_def)

lemma sql_le_trans: "sql_le a b \<Longrightarrow> sql_le b c \<Longrightarrow> sql_le a c"
  by (auto simp: sql_le_def pair_le_def split: if_splits)

lemma map_eq_list_all2: "map f xs = map g ys \<Longrightarrow> list_all2 (\<lambda>x y. f x = g y) xs ys"
proof (induction xs arbitrary: ys)
  case Nil
  then show ?case by simp
next
  case (Cons x xs)
  then show ?case by (cases ys) auto
qed

lemma list_all2_right: "list_all2 P xs ys \<Longrightarrow> y \<in> set ys \<Longrightarrow> \<exists>x\<in>set xs. P x y"
  by (induction rule: list_all2_induct) auto

lemma totals_InrD:
  assumes "totals eng g = Inr e"
  shows "fst e = fst g \<and> sqlite_sum eng (map bread_count (snd g)) = Inr (fst (snd e))
          \<and> sqlite_sum eng (map cash_amount (snd g)) = Inr (snd (snd e))"
  using assms by (auto simp: totals_def split: sum.splits)

lemma group_nonempty:
  assumes "g \<in> set (group_by key rs)"
  shows "snd g = filter (\<lambda>r. key r = fst g) rs" and "snd g \<noteq> []"
proof -
  from assms group_by_correct [of key rs] show s: "snd g = filter (\<lambda>r. key r = fst g) rs"
    by (cases g) auto
  from assms have "fst g \<in> fst ` set (group_by key rs)" by simp
  with group_by_correct [of key rs] have "fst g \<in> key ` set rs" by simp
  then show "snd g \<noteq> []" unfolding s by (auto simp: filter_empty_conv)
qed

lemma collect_totals:
  assumes "collect (map (totals eng) gs) = Inr ts" and sub: "set gs \<subseteq> set (group_by key rs)"
  shows "map fst ts = map fst gs"
    and "\<forall>e\<in>set ts.
           sqlite_sum eng (map bread_count (filter (\<lambda>r. key r = fst e) rs)) = Inr (fst (snd e))
         \<and> sqlite_sum eng (map cash_amount (filter (\<lambda>r. key r = fst e) rs)) = Inr (snd (snd e))"
proof -
  from assms(1) have "map (totals eng) gs = map Inr ts" by (rule collect_InrD)
  then have rel: "list_all2 (\<lambda>g e. totals eng g = Inr e) gs ts" by (rule map_eq_list_all2)
  then have rel': "list_all2 (\<lambda>g e. fst e = fst g
          \<and> sqlite_sum eng (map bread_count (snd g)) = Inr (fst (snd e))
          \<and> sqlite_sum eng (map cash_amount (snd g)) = Inr (snd (snd e))) gs ts"
    by (rule list_all2_mono) (rule totals_InrD)
  then have "list_all2 (\<lambda>g e. fst g = fst e) gs ts"
    by (rule list_all2_mono) simp
  then have "map fst gs = map fst ts"
    by (simp add: list.rel_map(1)[symmetric] list.rel_map(2)[symmetric] list.rel_eq[symmetric]
        del: list.rel_eq) (simp add: list_all2_map1 list_all2_map2)
  then show "map fst ts = map fst gs" by simp
  show "\<forall>e\<in>set ts.
           sqlite_sum eng (map bread_count (filter (\<lambda>r. key r = fst e) rs)) = Inr (fst (snd e))
         \<and> sqlite_sum eng (map cash_amount (filter (\<lambda>r. key r = fst e) rs)) = Inr (snd (snd e))"
  proof
    fix e assume "e \<in> set ts"
    with list_all2_right [OF rel'] obtain g where g: "g \<in> set gs" "fst e = fst g"
      "sqlite_sum eng (map bread_count (snd g)) = Inr (fst (snd e))"
      "sqlite_sum eng (map cash_amount (snd g)) = Inr (snd (snd e))"
      by blast
    from g(1) sub have "g \<in> set (group_by key rs)" by blast
    then have "snd g = filter (\<lambda>r. key r = fst g) rs" by (rule group_nonempty(1))
    with g show "sqlite_sum eng (map bread_count (filter (\<lambda>r. key r = fst e) rs)) = Inr (fst (snd e))
         \<and> sqlite_sum eng (map cash_amount (filter (\<lambda>r. key r = fst e) rs)) = Inr (snd (snd e))"
      by simp
  qed
qed

lemma totals_exact:
  assumes c: "exact_counts (map bread_count rs)" and a: "exact_amounts k (map cash_amount rs)"
    and g: "g \<in> set (group_by key rs)"
  shows "totals eng g = Inr (fst g, SInt (count_sum (snd g)), SReal (Finite (cash_sum (snd g))))"
proof -
  note s = group_nonempty [OF g]
  have 1: "sqlite_sum eng (map bread_count (snd g)) = Inr (SInt (count_sum (snd g)))"
    using sqlite_sum_counts [of "map bread_count (snd g)" eng] s(2)
      exact_counts_filter [OF c, of "\<lambda>r. key r = fst g"]
    by (simp add: s(1) [symmetric] count_sum_def comp_def)
  have 2: "sqlite_sum eng (map cash_amount (snd g)) = Inr (SReal (Finite (cash_sum (snd g))))"
    using sqlite_sum_amounts [of "map cash_amount (snd g)" k eng] s(2)
      exact_amounts_filter [OF a, of "\<lambda>r. key r = fst g"]
    by (simp add: s(1) [symmetric] cash_sum_def comp_def)
  show ?thesis by (simp add: totals_def 1 2)
qed

lemma collect_totals_exact:
  assumes c: "exact_counts (map bread_count rs)" and a: "exact_amounts k (map cash_amount rs)"
  shows "collect (map (totals eng) (group_by key rs))
          = Inr (map (\<lambda>g. (fst g, SInt (count_sum (snd g)), SReal (Finite (cash_sum (snd g)))))
                   (group_by key rs))"
proof -
  have "map (totals eng) (group_by key rs)
      = map Inr (map (\<lambda>g. (fst g, SInt (count_sum (snd g)), SReal (Finite (cash_sum (snd g)))))
                   (group_by key rs))"
    unfolding map_map by (rule map_cong [OF refl]) (simp add: totals_exact [OF c a])
  then show ?thesis by (simp only: collect_map_Inr)
qed

lemma totalByEmployee_InrD:
  assumes "totalByEmployee eng rs = Inr es"
  obtains ts where "collect (map (totals eng) (group_by employee_name rs)) = Inr ts"
    and "es = order_by (\<lambda>a b. sql_le (fst (snd b)) (fst (snd a))) ts"
  using assms by (auto simp: totalByEmployee_def split: sum.splits)

lemma distinct_map_order_by:
  assumes "distinct (map f xs)"
  shows "distinct (map f (order_by le xs))"
proof -
  have "mset (map f (order_by le xs)) = mset (map f xs)" by (simp add: mset_order_by)
  then show ?thesis using assms by (metis distinct_count_atmost_1 set_mset_mset)
qed

lemma strictly_descending:
  fixes f :: "'a \<Rightarrow> int"
  assumes "sorted_wrt (\<lambda>a b. f b \<le> f a) xs" and "distinct (map f xs)"
  shows "sorted_wrt (\<lambda>a b. f b < f a) xs"
  using assms
proof (induction xs)
  case Nil
  then show ?case by simp
next
  case (Cons x xs)
  have "f y < f x" if "y \<in> set xs" for y
  proof -
    from Cons.prems(1) that have "f y \<le> f x" by simp
    moreover from Cons.prems(2) that have "f y \<noteq> f x" by (auto simp: image_iff)
    ultimately show ?thesis by simp
  qed
  with Cons show ?case by simp
qed

lemma totals_by_employee_sound:
  assumes "totalByEmployee eng rs = Inr es"
  shows "distinct (map fst es) \<and> fst ` set es = employee_name ` set rs
      \<and> sorted_wrt (\<lambda>a b. sql_le (fst (snd b)) (fst (snd a))) es
      \<and> (\<forall>e\<in>set es.
            sqlite_sum eng (map bread_count (filter (\<lambda>r. employee_name r = fst e) rs))
              = Inr (fst (snd e))
          \<and> sqlite_sum eng (map cash_amount (filter (\<lambda>r. employee_name r = fst e) rs))
              = Inr (snd (snd e)))"
proof -
  from assms obtain ts where ts: "collect (map (totals eng) (group_by employee_name rs)) = Inr ts"
    and es: "es = order_by (\<lambda>a b. sql_le (fst (snd b)) (fst (snd a))) ts"
    by (rule totalByEmployee_InrD)
  note c = collect_totals [OF ts subset_refl] and g = group_by_correct [of employee_name rs]
  from c(1) g have d: "distinct (map fst ts)" and k: "fst ` set ts = employee_name ` set rs"
    by (simp_all flip: set_map)
  have 1: "distinct (map fst es)" unfolding es using d by (rule distinct_map_order_by)
  have 2: "fst ` set es = employee_name ` set rs" unfolding es by (simp add: set_order_by k)
  have 3: "sorted_wrt (\<lambda>a b. sql_le (fst (snd b)) (fst (snd a))) es"
    unfolding es by (rule sorted_order_by) (use sql_le_total sql_le_trans in blast)+
  have 4: "\<forall>e\<in>set es.
            sqlite_sum eng (map bread_count (filter (\<lambda>r. employee_name r = fst e) rs))
              = Inr (fst (snd e))
          \<and> sqlite_sum eng (map cash_amount (filter (\<lambda>r. employee_name r = fst e) rs))
              = Inr (snd (snd e))"
    unfolding es using c(2) by (simp add: set_order_by)
  show ?thesis by (intro conjI) (rule 1 2 3 4)+
qed

lemma grouped_totals_exact:
  assumes g: "g \<in> set (group_by key rs)"
    and e: "e = (fst g, SInt (count_sum (snd g)), SReal (Finite (cash_sum (snd g))))"
  shows "fst (snd e) = SInt (count_sum (filter (\<lambda>r. key r = fst e) rs))
       \<and> snd (snd e) = SReal (Finite (cash_sum (filter (\<lambda>r. key r = fst e) rs)))"
  using group_nonempty(1) [OF g] e by simp

lemma totals_by_employee_exact:
  assumes ex1: "exact_counts (map bread_count rs)" and ex2: "exact_amounts k (map cash_amount rs)"
  shows "\<exists>es. totalByEmployee eng rs = Inr es
           \<and> (\<forall>e\<in>set es.
                 fst (snd e) = SInt (count_sum (filter (\<lambda>r. employee_name r = fst e) rs))
               \<and> snd (snd e)
                   = SReal (Finite (cash_sum (filter (\<lambda>r. employee_name r = fst e) rs))))"
proof -
  let ?F = "\<lambda>g. (fst g, SInt (count_sum (snd g)), SReal (Finite (cash_sum (snd g))))"
  let ?gs = "group_by employee_name rs"
  let ?es = "order_by (\<lambda>a b. sql_le (fst (snd b)) (fst (snd a))) (map ?F ?gs)"
  have c: "collect (map (totals eng) ?gs) = Inr (map ?F ?gs)"
    using ex1 ex2 by (rule collect_totals_exact)
  then have r: "totalByEmployee eng rs = Inr ?es" by (simp add: totalByEmployee_def)
  have "\<forall>e\<in>set ?es.
          fst (snd e) = SInt (count_sum (filter (\<lambda>r. employee_name r = fst e) rs))
        \<and> snd (snd e) = SReal (Finite (cash_sum (filter (\<lambda>r. employee_name r = fst e) rs)))"
  proof
    fix e assume "e \<in> set ?es"
    then obtain g where "g \<in> set ?gs" and "e = ?F g" by (auto simp: set_order_by)
    then show "fst (snd e) = SInt (count_sum (filter (\<lambda>r. employee_name r = fst e) rs))
        \<and> snd (snd e) = SReal (Finite (cash_sum (filter (\<lambda>r. employee_name r = fst e) rs)))"
      by (rule grouped_totals_exact)
  qed
  with r show ?thesis by blast
qed

lemma take_most_recent:
  fixes f :: "'a \<Rightarrow> int"
  assumes s: "sorted_wrt (\<lambda>a b. f b < f a) xs" and x: "x \<in> set xs" and n: "f x \<notin> f ` set (take n xs)"
  shows "length (take n xs) = n \<and> (\<forall>e\<in>set (take n xs). f x < f e)"
proof -
  have xs: "xs = take n xs @ drop n xs" by simp
  from x n have d: "x \<in> set (drop n xs)" by (metis Un_iff image_eqI set_append xs)
  then have "drop n xs \<noteq> []" by auto
  then have l: "length (take n xs) = n" by simp
  from s have "sorted_wrt (\<lambda>a b. f b < f a) (take n xs @ drop n xs)" by simp
  then have "\<forall>e\<in>set (take n xs). f x < f e" using d by (simp only: sorted_wrt_append) blast
  with l show ?thesis by simp
qed

lemma take_sorted_iff:
  fixes f :: "'a \<Rightarrow> int"
  assumes "sorted_wrt (\<lambda>a b. f b < f a) xs"
  shows "x \<in> set (take n xs) \<longleftrightarrow> x \<in> set xs \<and> length (filter (\<lambda>y. f x < f y) xs) < n"
  using assms
proof (induction xs arbitrary: n)
  case Nil
  then show ?case by simp
next
  case (Cons y ys)
  show ?case
  proof (cases n)
    case 0
    then show ?thesis by simp
  next
    case (Suc m)
    from Cons.prems have lt: "\<forall>z\<in>set ys. f z < f y" and s: "sorted_wrt (\<lambda>a b. f b < f a) ys"
      by simp_all
    from lt have e: "filter (\<lambda>z. f y < f z) ys = []" by (auto simp: filter_empty_conv)
    show ?thesis
    proof (cases "x = y")
      case True
      then show ?thesis using Suc e by simp
    next
      case False
      show ?thesis
      proof (cases "x \<in> set ys")
        case True
        with lt have "f x < f y" by simp
        with Cons.IH [OF s, of m] Suc False show ?thesis by simp
      next
        case n: False
        then have "x \<notin> set (take m ys)" by (auto dest: in_set_takeD)
        with n False Suc show ?thesis by simp
      qed
    qed
  qed
qed

lemma count_newer:
  assumes "distinct (map f xs)" and "f ` set xs = key ` set rs"
  shows "length (filter (\<lambda>y. d < f y) xs) = length (remdups (filter (\<lambda>d'. (d::int) < d') (map key rs)))"
proof -
  have "length (filter (\<lambda>y. d < f y) xs) = length (filter (\<lambda>d'. d < d') (map f xs))"
    by (simp add: filter_map comp_def)
  also have "\<dots> = card (set (filter (\<lambda>d'. d < d') (map f xs)))"
  proof -
    from assms(1) have "distinct (filter (\<lambda>d'. d < d') (map f xs))" by (rule distinct_filter)
    then show ?thesis by (rule distinct_card [symmetric])
  qed
  also have "set (filter (\<lambda>d'. d < d') (map f xs)) = set (filter (\<lambda>d'. d < d') (map key rs))"
    using assms(2) by auto
  also have "card \<dots> = length (remdups (filter (\<lambda>d'. d < d') (map key rs)))"
    by (simp add: length_remdups_card_conv)
  finally show ?thesis .
qed

lemma day_groups_correct:
  shows "length (day_groups rs) \<le> 7"
    and "sorted_wrt (\<lambda>a b. fst b < fst a) (day_groups rs)"
    and "g \<in> set (day_groups rs) \<longleftrightarrow>
          g \<in> set (group_by (\<lambda>r. date (timestamp r)) rs) \<and> length (newer_days rs (fst g)) < 7"
proof -
  let ?key = "\<lambda>r. date (timestamp r)"
  let ?gs = "group_by ?key rs"
  let ?ss = "order_by (\<lambda>a b. fst b \<le> fst a) ?gs"
  note g = group_by_correct [of ?key rs]
  from g have d: "distinct (map fst ?gs)" and k: "fst ` set ?gs = ?key ` set rs" by simp_all
  have "sorted_wrt (\<lambda>a b. fst b \<le> fst a) ?ss" by (rule sorted_order_by) auto
  then have strict: "sorted_wrt (\<lambda>a b. fst b < fst a) ?ss"
    using distinct_map_order_by [OF d] by (rule strictly_descending)
  have dss: "distinct (map fst ?ss)" using d by (rule distinct_map_order_by)
  have kss: "fst ` set ?ss = ?key ` set rs" using k by (simp add: set_order_by)
  show "length (day_groups rs) \<le> 7" by (simp add: day_groups_def)
  show "sorted_wrt (\<lambda>a b. fst b < fst a) (day_groups rs)"
    unfolding day_groups_def using strict by (rule sorted_wrt_take)
  have "g \<in> set (day_groups rs) \<longleftrightarrow> g \<in> set ?ss \<and> length (filter (\<lambda>y. fst g < fst y) ?ss) < 7"
    unfolding day_groups_def using strict by (rule take_sorted_iff)
  also have "length (filter (\<lambda>y. fst g < fst y) ?ss) = length (newer_days rs (fst g))"
    unfolding newer_days_def using dss kss by (rule count_newer)
  finally show "g \<in> set (day_groups rs) \<longleftrightarrow> g \<in> set ?gs \<and> length (newer_days rs (fst g)) < 7"
    by (simp add: set_order_by)
qed


lemma collect_Inr_iff: "(\<exists>ys. collect xs = Inr ys) \<longleftrightarrow> (\<forall>x\<in>set xs. \<exists>y. x = Inr y)"
proof (induction xs)
  case Nil
  then show ?case by simp
next
  case (Cons x xs)
  then show ?case by (cases x) (auto split: sum.splits)
qed

lemma totals_Inr_iff:
  "(\<exists>e. totals eng g = Inr e) \<longleftrightarrow>
     (\<exists>t. sqlite_sum eng (map bread_count (snd g)) = Inr t)
   \<and> (\<exists>c. sqlite_sum eng (map cash_amount (snd g)) = Inr c)"
  by (auto simp: totals_def split: sum.splits)

lemma group_of_key:
  assumes "r \<in> set rs"
  obtains g where "g \<in> set (group_by key rs)" and "fst g = key r"
proof -
  from assms have "key r \<in> key ` set rs" by (rule imageI)
  also from group_by_correct [of key rs] have "key ` set rs = fst ` set (group_by key rs)" by simp
  finally obtain g where "key r = fst g" and "g \<in> set (group_by key rs)" by (rule imageE)
  with that show thesis by simp
qed

lemma recent_group:
  assumes "g \<in> set (day_groups rs)"
  shows "snd g = filter (\<lambda>r. date (timestamp r) = fst g) rs"
    and "snd g = filter (\<lambda>r. date (timestamp r) = fst g) (filter (recent rs) rs)"
    and "snd g \<noteq> []"
    and "set (day_groups rs) \<subseteq> set (group_by (\<lambda>r. date (timestamp r)) rs)"
proof -
  from assms
  have g: "g \<in> set (group_by (\<lambda>r. date (timestamp r)) rs)"
    and n: "length (newer_days rs (fst g)) < 7" by (simp_all add: day_groups_correct(3))
  from g show 1: "snd g = filter (\<lambda>r. date (timestamp r) = fst g) rs" by (rule group_nonempty(1))
  have "filter (\<lambda>r. date (timestamp r) = fst g) (filter (recent rs) rs)
      = filter (\<lambda>r. date (timestamp r) = fst g) rs"
    unfolding filter_filter by (rule filter_cong [OF refl]) (use n in \<open>auto simp: recent_def\<close>)
  with 1 show "snd g = filter (\<lambda>r. date (timestamp r) = fst g) (filter (recent rs) rs)" by simp
  from g show "snd g \<noteq> []" by (rule group_nonempty(2))
  show "set (day_groups rs) \<subseteq> set (group_by (\<lambda>r. date (timestamp r)) rs)"
    by (auto simp: day_groups_correct(3))
qed

lemma recent_days:
  "fst ` set (day_groups rs) = (\<lambda>r. date (timestamp r)) ` set (filter (recent rs) rs)"
proof (intro set_eqI iffI)
  fix d assume "d \<in> fst ` set (day_groups rs)"
  then obtain g where g: "g \<in> set (day_groups rs)" and d: "d = fst g" by blast
  from recent_group(2,3) [OF g] obtain r where "r \<in> set (filter (recent rs) rs)"
    and "date (timestamp r) = fst g"
    by (metis (mono_tags, lifting) filter_empty_conv)
  with d show "d \<in> (\<lambda>r. date (timestamp r)) ` set (filter (recent rs) rs)" by force
next
  fix d assume "d \<in> (\<lambda>r. date (timestamp r)) ` set (filter (recent rs) rs)"
  then obtain r where r: "r \<in> set rs" "recent rs r" and d: "d = date (timestamp r)" by auto
  from r(1) obtain g
    where g: "g \<in> set (group_by (\<lambda>r. date (timestamp r)) rs)" "fst g = date (timestamp r)"
    by (rule group_of_key)
  with r(2) have "g \<in> set (day_groups rs)" by (simp add: recent_def day_groups_correct(3))
  with g(2) d show "d \<in> fst ` set (day_groups rs)" by force
qed

lemma totals_by_day_sound:
  assumes "totalByDay eng rs = Inr es"
  shows "length es \<le> 7"
    and "sorted_wrt (\<lambda>a b. fst b < fst a) es"
    and "fst ` set es = (\<lambda>r. date (timestamp r)) ` set (filter (recent rs) rs)"
    and "\<forall>r\<in>set rs. date (timestamp r) \<notin> fst ` set es \<longrightarrow>
            length es = 7 \<and> (\<forall>e\<in>set es. date (timestamp r) < fst e)"
    and "\<forall>e\<in>set es.
            sqlite_sum eng (map bread_count (filter (\<lambda>r. date (timestamp r) = fst e) rs))
              = Inr (fst (snd e))
          \<and> sqlite_sum eng (map cash_amount (filter (\<lambda>r. date (timestamp r) = fst e) rs))
              = Inr (snd (snd e))"
proof -
  let ?key = "\<lambda>r. date (timestamp r)"
  from assms have ts: "collect (map (totals eng) (day_groups rs)) = Inr es"
    by (simp add: totalByDay_def)
  have sub: "set (day_groups rs) \<subseteq> set (group_by ?key rs)"
    by (auto simp: day_groups_correct(3))
  note c = collect_totals [OF ts sub] and dg = day_groups_correct(1,2) [of rs]
  from c(1) have len: "length es = length (day_groups rs)" by (rule map_eq_imp_length_eq)
  from c(1) have keys: "fst ` set es = fst ` set (day_groups rs)" by (simp flip: set_map)
  show "length es \<le> 7" using dg len by simp
  from dg have "sorted_wrt (\<lambda>a b. b < a) (map fst (day_groups rs))"
    by (simp add: sorted_wrt_map)
  then show "sorted_wrt (\<lambda>a b. fst b < fst a) es"
    by (simp add: c(1) [symmetric] sorted_wrt_map)
  show "fst ` set es = ?key ` set (filter (recent rs) rs)"
    using keys by (simp only: recent_days)
  show "\<forall>r\<in>set rs. ?key r \<notin> fst ` set es \<longrightarrow>
            length es = 7 \<and> (\<forall>e\<in>set es. ?key r < fst e)"
  proof (intro ballI impI)
    fix r assume r: "r \<in> set rs" and n: "?key r \<notin> fst ` set es"
    let ?ss = "order_by (\<lambda>a b. fst b \<le> fst a) (group_by ?key rs)"
    note g = group_by_correct [of ?key rs]
    from g have d: "distinct (map fst (group_by ?key rs))" by simp
    have "sorted_wrt (\<lambda>a b. fst b \<le> fst a) ?ss" by (rule sorted_order_by) auto
    then have strict: "sorted_wrt (\<lambda>a b. fst b < fst a) ?ss"
      using distinct_map_order_by [OF d] by (rule strictly_descending)
    from r obtain x where "x \<in> set (group_by ?key rs)" and "fst x = ?key r"
      by (rule group_of_key)
    then have x: "x \<in> set ?ss" "fst x = ?key r" by (simp_all add: set_order_by)
    from n x keys have "fst x \<notin> fst ` set (take 7 ?ss)" by (simp add: day_groups_def)
    from take_most_recent [OF strict x(1) this] x(2)
    have "length (day_groups rs) = 7" and "\<forall>e\<in>set (day_groups rs). ?key r < fst e"
      by (simp_all add: day_groups_def)
    with len keys show "length es = 7 \<and> (\<forall>e\<in>set es. ?key r < fst e)"
      by (metis (no_types, lifting) imageE imageI)
  qed
  show "\<forall>e\<in>set es.
            sqlite_sum eng (map bread_count (filter (\<lambda>r. ?key r = fst e) rs)) = Inr (fst (snd e))
          \<and> sqlite_sum eng (map cash_amount (filter (\<lambda>r. ?key r = fst e) rs)) = Inr (snd (snd e))"
    by (rule c(2))
qed

lemma totals_by_day_returns:
  "(\<exists>es. totalByDay eng rs = Inr es) \<longleftrightarrow>
     (\<forall>r\<in>set (filter (recent rs) rs).
        (\<exists>t. sqlite_sum eng (map bread_count
                (filter (\<lambda>r'. date (timestamp r') = date (timestamp r)) rs)) = Inr t)
      \<and> (\<exists>c. sqlite_sum eng (map cash_amount
                (filter (\<lambda>r'. date (timestamp r') = date (timestamp r)) rs)) = Inr c))"
  (is "?returns \<longleftrightarrow> ?sums")
proof
  assume ?returns
  then obtain es where es: "totalByDay eng rs = Inr es" by blast
  note s = totals_by_day_sound [OF es]
  show ?sums
  proof
    fix r assume "r \<in> set (filter (recent rs) rs)"
    then have "date (timestamp r) \<in> (\<lambda>r. date (timestamp r)) ` set (filter (recent rs) rs)"
      by (rule imageI)
    also note s(3) [symmetric]
    finally obtain e where "date (timestamp r) = fst e" and "e \<in> set es" by (rule imageE)
    with s(5) show "(\<exists>t. sqlite_sum eng (map bread_count
                (filter (\<lambda>r'. date (timestamp r') = date (timestamp r)) rs)) = Inr t)
      \<and> (\<exists>c. sqlite_sum eng (map cash_amount
                (filter (\<lambda>r'. date (timestamp r') = date (timestamp r)) rs)) = Inr c)"
      by auto
  qed
next
  assume s: ?sums
  have "\<forall>x\<in>set (map (totals eng) (day_groups rs)). \<exists>y. x = Inr y"
  proof
    fix x assume "x \<in> set (map (totals eng) (day_groups rs))"
    then obtain g where g: "g \<in> set (day_groups rs)" and x: "x = totals eng g" by auto
    from g have "fst g \<in> fst ` set (day_groups rs)" by (rule imageI)
    then obtain r where r: "r \<in> set (filter (recent rs) rs)" and k: "date (timestamp r) = fst g"
      unfolding recent_days by auto
    from s r k recent_group(1) [OF g]
    have "(\<exists>t. sqlite_sum eng (map bread_count (snd g)) = Inr t)
        \<and> (\<exists>c. sqlite_sum eng (map cash_amount (snd g)) = Inr c)"
      by auto
    then have "\<exists>e. totals eng g = Inr e" by (simp only: totals_Inr_iff)
    with x show "\<exists>y. x = Inr y" by simp
  qed
  then show ?returns by (simp only: totalByDay_def collect_Inr_iff)
qed

lemma totals_by_day_exact:
  assumes ex1: "exact_counts (map bread_count (filter (recent rs) rs))"
    and ex2: "exact_amounts k (map cash_amount (filter (recent rs) rs))"
  shows "\<exists>es. totalByDay eng rs = Inr es
           \<and> (\<forall>e\<in>set es.
                 fst (snd e) = SInt (count_sum (filter (\<lambda>r. date (timestamp r) = fst e) rs))
               \<and> snd (snd e)
                   = SReal (Finite (cash_sum (filter (\<lambda>r. date (timestamp r) = fst e) rs))))"
proof -
  let ?key = "\<lambda>r. date (timestamp r)"
  let ?F = "\<lambda>g. (fst g, SInt (count_sum (snd g)), SReal (Finite (cash_sum (snd g))))"
  let ?gs = "day_groups rs"
  have t: "totals eng g = Inr (?F g)" if g: "g \<in> set ?gs" for g
  proof -
    note s = recent_group [OF g]
    from s(3) have ne: "map bread_count (snd g) \<noteq> []" "map cash_amount (snd g) \<noteq> []"
      by simp_all
    have c: "exact_counts (map bread_count (snd g))"
      by (subst s(2)) (rule exact_counts_filter [OF ex1])
    have a: "exact_amounts k (map cash_amount (snd g))"
      by (subst s(2)) (rule exact_amounts_filter [OF ex2])
    have 1: "sqlite_sum eng (map bread_count (snd g)) = Inr (SInt (count_sum (snd g)))"
      using sqlite_sum_counts [OF ne(1) c, of eng] by (simp add: count_sum_def comp_def)
    have 2: "sqlite_sum eng (map cash_amount (snd g)) = Inr (SReal (Finite (cash_sum (snd g))))"
      using sqlite_sum_amounts [OF ne(2) a, of eng] by (simp add: cash_sum_def comp_def)
    show ?thesis by (simp add: totals_def 1 2)
  qed
  have "map (totals eng) ?gs = map Inr (map ?F ?gs)"
    unfolding map_map by (rule map_cong [OF refl]) (simp add: t)
  then have r: "totalByDay eng rs = Inr (map ?F ?gs)"
    by (simp only: totalByDay_def collect_map_Inr)
  have "\<forall>e\<in>set (map ?F ?gs).
          fst (snd e) = SInt (count_sum (filter (\<lambda>r. ?key r = fst e) rs))
        \<and> snd (snd e) = SReal (Finite (cash_sum (filter (\<lambda>r. ?key r = fst e) rs)))"
  proof
    fix e assume "e \<in> set (map ?F ?gs)"
    then obtain g where g: "g \<in> set ?gs" and e: "e = ?F g" by auto
    from recent_group(1) [OF g] e
    show "fst (snd e) = SInt (count_sum (filter (\<lambda>r. ?key r = fst e) rs))
        \<and> snd (snd e) = SReal (Finite (cash_sum (filter (\<lambda>r. ?key r = fst e) rs)))"
      by simp
  qed
  with r show ?thesis by blast
qed

lemma sum_list_perm: 
  fixes f :: "'a \<Rightarrow> 'b::comm_monoid_add"
  assumes "mset xs = mset ys"
  shows "sum_list (map f xs) = sum_list (map f ys)"
proof -
  from assms have "mset (map f xs) = mset (map f ys)" by simp
  then have "sum_mset (mset (map f xs)) = sum_mset (mset (map f ys))" by simp
  then show ?thesis by (simp only: sum_mset_sum_list)
qed

lemma exact_counts_perm:
  assumes "mset rs = mset rs'" and "exact_counts (map f rs)"
  shows "exact_counts (map f rs')"
proof -
  from assms(1) have s: "set rs = set rs'" by (rule mset_eq_setD)
  from sum_list_perm [OF assms(1), of "\<lambda>r. integer_of (f r)"] assms(2) s
  show ?thesis by (simp add: exact_counts_def list_all_iff comp_def)
qed

lemma exact_amounts_perm:
  assumes "mset rs = mset rs'" and "exact_amounts k (map f rs)"
  shows "exact_amounts k (map f rs')"
proof -
  from assms(1) have s: "set rs = set rs'" by (rule mset_eq_setD)
  from sum_list_perm [OF assms(1), of "\<lambda>r. \<bar>amount (f r)\<bar>"] assms(2) s
  show ?thesis by (simp add: exact_amounts_def list_all_iff comp_def)
qed

lemma employee_counts:
  assumes c: "exact_counts (map bread_count rs)" and r: "totalByEmployee eng rs = Inr es"
  shows "(\<lambda>e. (fst e, fst (snd e))) ` set es
     = (\<lambda>n. (n, SInt (count_sum (filter (\<lambda>r. employee_name r = n) rs)))) ` employee_name ` set rs"
proof -
  from totals_by_employee_sound [OF r]
  have k: "fst ` set es = employee_name ` set rs"
    and s: "\<And>e. e \<in> set es \<Longrightarrow>
          sqlite_sum eng (map bread_count (filter (\<lambda>r. employee_name r = fst e) rs)) = Inr (fst (snd e))"
    by blast+
  have t: "fst (snd e) = SInt (count_sum (filter (\<lambda>r. employee_name r = fst e) rs))"
    if e: "e \<in> set es" for e
  proof -
    from e k have "fst e \<in> employee_name ` set rs" by blast
    then have ne: "map bread_count (filter (\<lambda>r. employee_name r = fst e) rs) \<noteq> []"
      by (auto simp: filter_empty_conv)
    from sqlite_sum_counts [OF ne exact_counts_filter [OF c], of eng] s [OF e]
    show ?thesis by (simp add: count_sum_def comp_def)
  qed
  have "(\<lambda>e. (fst e, fst (snd e))) ` set es
      = (\<lambda>e. (fst e, SInt (count_sum (filter (\<lambda>r. employee_name r = fst e) rs)))) ` set es"
    by (rule image_cong [OF refl]) (simp add: t)
  also have "\<dots> = (\<lambda>n. (n, SInt (count_sum (filter (\<lambda>r. employee_name r = n) rs)))) ` fst ` set es"
    by (simp add: image_image)
  finally show ?thesis by (simp only: k)
qed

lemma distinct_fst: "distinct (map fst es) \<Longrightarrow> distinct es"
  by (simp add: distinct_map)

lemma employee_totals_determined:
  assumes ex1: "exact_counts (map bread_count rs)" and ex2: "exact_amounts k (map cash_amount rs)"
  shows "\<exists>es. totalByEmployee eng rs = Inr es \<and> distinct es
     \<and> set es = (\<lambda>n. (n, SInt (count_sum (filter (\<lambda>r. employee_name r = n) rs)),
                       SReal (Finite (cash_sum (filter (\<lambda>r. employee_name r = n) rs)))))
                ` employee_name ` set rs"
proof -
  from totals_by_employee_exact [OF ex1 ex2, of eng] obtain es
    where r: "totalByEmployee eng rs = Inr es"
      and e: "\<And>e. e \<in> set es \<Longrightarrow>
            fst (snd e) = SInt (count_sum (filter (\<lambda>r. employee_name r = fst e) rs))
          \<and> snd (snd e) = SReal (Finite (cash_sum (filter (\<lambda>r. employee_name r = fst e) rs)))"
    by blast
  let ?G = "\<lambda>n. (n, SInt (count_sum (filter (\<lambda>r. employee_name r = n) rs)),
                       SReal (Finite (cash_sum (filter (\<lambda>r. employee_name r = n) rs))))"
  from totals_by_employee_sound [OF r]
  have d: "distinct (map fst es)" and k: "fst ` set es = employee_name ` set rs" by simp_all
  have "e = ?G (fst e)" if "e \<in> set es" for e
    using e [OF that] by (cases e) auto
  then have "set es = (\<lambda>e. ?G (fst e)) ` set es" by (auto simp: image_iff)
  also have "\<dots> = ?G ` fst ` set es" by (simp only: image_image)
  finally have "set es = ?G ` employee_name ` set rs" by (simp only: k)
  with r distinct_fst [OF d] show ?thesis by blast
qed

subsection \<open>Listings and the requests that leave the records alone\<close>

lemma newest_first_mset: "mset (newest_first rs) = mset rs"
  by (simp add: newest_first_def mset_order_by)

lemma newest_first_sorted: "sorted_wrt (\<lambda>a b. timestamp b \<le> timestamp a) (newest_first rs)"
  unfolding newest_first_def by (rule sorted_order_by) auto

lemma newest_first_stable:
  "filter (\<lambda>r. timestamp r = t) (newest_first rs) = filter (\<lambda>r. timestamp r = t) rs"
  unfolding newest_first_def by (rule order_by_stable) simp

lemma putProfile_records: "records (snd (putProfile eng i e n p db)) = records db"
  by (simp add: putProfile_def Let_def split: sum.splits prod.splits)

lemma deleteUser_records: "records (snd (deleteUser eng u db)) = records db"
  by (simp add: deleteUser_def Let_def)

lemma signup_records: "records (snd (signup eng e p n r db)) = records db"
  by (simp add: signup_def Let_def split: sum.splits prod.splits)

lemma createRecord_records:
  "prefix (records db) (records (store (createRecord eng key gen now b db)))"
proof -
  from createRecord_cases [of key eng gen now b db]
  consider "store (createRecord eng key gen now b db) = db"
    | img t i db' where "insert_record eng now (userId b) (employeeName b) (providerName b)
          (JNum (breadCount t))
          (if cashAmount b = JUndefined then JNum (Finite 0) else cashAmount b)
          (JStr img) db = Inr (i, db')" "store (createRecord eng key gen now b db) = db'"
    by (elim disjE conjE exE) simp_all
  then show ?thesis
  proof cases
    case 1
    then show ?thesis by simp
  next
    case 2
    from insert_record_appends [OF 2(1)] 2(2) show ?thesis by auto
  qed
qed

lemma handle_records: "prefix (records db) (records (handle eng db rq))"
  by (cases rq)
    (simp_all add: createRecord_records putProfile_records deleteUser_records signup_records)

lemma serve_records: "prefix (records db) (records (serve eng db rqs))"
proof (induction rqs arbitrary: db)
  case Nil
  then show ?case by (simp add: serve_def)
next
  case (Cons rq rqs)
  have "prefix (records db) (records (handle eng db rq))" by (rule handle_records)
  also have "prefix (records (handle eng db rq)) (records (serve eng (handle eng db rq) rqs))"
    by (rule Cons)
  finally show ?case by (simp add: serve_def)
qed

subsection \<open>The order of insertion\<close>

lemma insert_record_contents:
  assumes "users db2 = users db" and "records db2 = []"
  shows "(case insert_record eng now a1 a2 a3 a4 a5 a6 db of
            Inl e \<Rightarrow> insert_record eng now2 a1 a2 a3 a4 a5 a6 db2 = Inl e
          | Inr (i, db') \<Rightarrow>
              (\<exists>j db2'. insert_record eng now2 a1 a2 a3 a4 a5 a6 db2 = Inr (j, db2')
                 \<and> map contents (records db') = map contents (records db) @ map contents (records db2')
                 \<and> users db' = users db))"
  using assms
  by (auto simp: insert_record_def Let_def contents_def split: sum.splits)

lemma createRecord_contents:
  assumes u: "users db2 = users db" and r: "records db2 = []"
  shows "map contents (records (store (createRecord eng key gen now b db)))
       = map contents (records db)
         @ map contents (records (store (createRecord eng key gen now2 b db2)))
       \<and> users (store (createRecord eng key gen now b db)) = users db"
proof -
  have *: "map contents (records (store (case insert_record eng now a1 a2 a3 a4 a5 a6 db of
               Inl e \<Rightarrow> \<lparr>reply = f, store = db, sent = s\<rparr>
             | Inr (i, db') \<Rightarrow> \<lparr>reply = h i, store = db', sent = s\<rparr>)))
        = map contents (records db)
          @ map contents (records (store (case insert_record eng now2 a1 a2 a3 a4 a5 a6 db2 of
               Inl e \<Rightarrow> \<lparr>reply = f, store = db2, sent = s\<rparr>
             | Inr (i, db') \<Rightarrow> \<lparr>reply = h i, store = db', sent = s\<rparr>)))
        \<and> users (store (case insert_record eng now a1 a2 a3 a4 a5 a6 db of
               Inl e \<Rightarrow> \<lparr>reply = f, store = db, sent = s\<rparr>
             | Inr (i, db') \<Rightarrow> \<lparr>reply = h i, store = db', sent = s\<rparr>)) = users db"
    for a1 a2 a3 a4 a5 a6 f s and h :: "int \<Rightarrow> (int \<times> double) reply"
    using insert_record_contents [OF u r, where eng = eng and now = now and ?now2.0 = now2
        and ?a1.0 = a1 and ?a2.0 = a2 and ?a3.0 = a3 and ?a4.0 = a4 and ?a5.0 = a5 and ?a6.0 = a6] r
    by (auto split: sum.splits)
  show ?thesis
    unfolding createRecord_def Let_def
    by (simp add: r * split: jsval.splits genai_result.splits)
qed

lemma handle_contents:
  assumes "submitted rq \<noteq> None"
  shows "map contents (records (handle eng db rq))
       = map contents (records db) @ appended eng (users db) (submitted rq)"
    and "users (handle eng db rq) = users db"
proof -
  from assms obtain key gen now b where rq: "rq = CreateRecord key gen now b"
    by (cases rq) simp_all
  let ?e = "\<lparr>users = users db, users_seq = 0, records = [], records_seq = 0\<rparr>"
  from createRecord_contents [of ?e db eng key gen now b 0]
  show "map contents (records (handle eng db rq))
       = map contents (records db) @ appended eng (users db) (submitted rq)"
    and "users (handle eng db rq) = users db"
    by (simp_all add: rq appended_def)
qed

lemma serve_contents:
  assumes "list_all (\<lambda>rq. submitted rq \<noteq> None) rqs"
  shows "map contents (records (serve eng db rqs))
       = map contents (records db) @ concat (map (\<lambda>rq. appended eng (users db) (submitted rq)) rqs)"
  using assms
proof (induction rqs arbitrary: db)
  case Nil
  then show ?case by (simp add: serve_def)
next
  case (Cons rq rqs)
  from Cons.prems have rq: "submitted rq \<noteq> None"
    and rqs: "list_all (\<lambda>rq. submitted rq \<noteq> None) rqs" by simp_all
  have "serve eng db (rq # rqs) = serve eng (handle eng db rq) rqs" by (simp add: serve_def)
  with Cons.IH [OF rqs, of "handle eng db rq"] handle_contents [OF rq, of eng db]
  show ?case by simp
qed

lemma serve_permuted:
  assumes c: "list_all (\<lambda>rq. submitted rq \<noteq> None) rqs"
    and p: "mset (map submitted rqs) = mset (map submitted rqs')"
  shows "mset (map contents (records (serve eng db rqs)))
       = mset (map contents (records (serve eng db rqs')))"
proof -
  from p have "set (map submitted rqs) = set (map submitted rqs')" by (rule mset_eq_setD)
  then have e: "submitted ` set rqs' = submitted ` set rqs" by simp
  have c': "list_all (\<lambda>rq. submitted rq \<noteq> None) rqs'"
    unfolding list_all_iff
  proof
    fix rq assume "rq \<in> set rqs'"
    then have "submitted rq \<in> submitted ` set rqs'" by (rule imageI)
    then have "submitted rq \<in> submitted ` set rqs" by (simp only: e)
    then obtain rq0 where s: "submitted rq = submitted rq0" and m: "rq0 \<in> set rqs"
      by (rule imageE)
    from c have "\<forall>rq\<in>set rqs. submitted rq \<noteq> None" by (simp only: list_all_iff)
    from this m have n: "submitted rq0 \<noteq> None" by (rule bspec)
    show "submitted rq \<noteq> None" unfolding s by (rule n)
  qed
  have "mset (concat (map (\<lambda>rq. f (submitted rq)) xs))
      = sum_list (map (\<lambda>s. mset (f s)) (map submitted xs))" for f :: "_ \<Rightarrow> records_row list" and xs
    by (simp add: mset_concat comp_def)
  moreover from p have "sum_list (map (\<lambda>s. mset (f s)) (map submitted rqs))
      = sum_list (map (\<lambda>s. mset (f s)) (map submitted rqs'))" for f :: "_ \<Rightarrow> records_row list"
    by (rule sum_list_perm)
  ultimately show ?thesis by (simp add: serve_contents [OF c] serve_contents [OF c'])
qed

lemma same_contents:
  assumes p: "mset (map contents rs) = mset (map contents rs')"
    and g: "\<And>r. g (contents r) = g r" and P: "\<And>r. P (contents r) = P r"
  shows "mset (map g (filter P rs)) = mset (map g (filter P rs'))"
proof -
  have "mset (map g (filter P xs)) = image_mset g (filter_mset P (mset (map contents xs)))" for xs
    by (induction xs) (simp_all add: g P)
  with p show ?thesis by simp
qed

lemma same_contents_sum:
  fixes f :: "records_row \<Rightarrow> 'b::comm_monoid_add"
  assumes p: "mset (map contents rs) = mset (map contents rs')"
    and g: "\<And>r. f (contents r) = f r" and P: "\<And>r. P (contents r) = P r"
  shows "sum_list (map f (filter P rs)) = sum_list (map f (filter P rs'))"
proof -
  from same_contents [where g = f and P = P, OF p g P]
  have "sum_mset (mset (map f (filter P rs))) = sum_mset (mset (map f (filter P rs')))" by simp
  then show ?thesis by (simp only: sum_mset_sum_list)
qed

lemma same_contents_totals:
  assumes p: "mset (map contents rs) = mset (map contents rs')"
  shows "employee_name ` set rs = employee_name ` set rs'"
    and "count_sum (filter (\<lambda>r. employee_name r = n) rs)
       = count_sum (filter (\<lambda>r. employee_name r = n) rs')"
    and "cash_sum (filter (\<lambda>r. employee_name r = n) rs)
       = cash_sum (filter (\<lambda>r. employee_name r = n) rs')"
    and "exact_counts (map bread_count rs) \<Longrightarrow> exact_counts (map bread_count rs')"
    and "exact_amounts k (map cash_amount rs) \<Longrightarrow> exact_amounts k (map cash_amount rs')"
proof -
  from same_contents [OF p, of employee_name "\<lambda>r. True"]
  have "mset (map employee_name rs) = mset (map employee_name rs')" by (simp add: contents_def)
  then have "set (map employee_name rs) = set (map employee_name rs')" by (rule mset_eq_setD)
  then show "employee_name ` set rs = employee_name ` set rs'" by simp
  show "count_sum (filter (\<lambda>r. employee_name r = n) rs)
       = count_sum (filter (\<lambda>r. employee_name r = n) rs')"
    unfolding count_sum_def by (rule same_contents_sum [OF p]) (simp_all add: contents_def)
  show "cash_sum (filter (\<lambda>r. employee_name r = n) rs)
       = cash_sum (filter (\<lambda>r. employee_name r = n) rs')"
    unfolding cash_sum_def by (rule same_contents_sum [OF p]) (simp_all add: contents_def)
  from same_contents [OF p, of bread_count "\<lambda>r. True"]
  have b: "mset (map bread_count rs) = mset (map bread_count rs')" by (simp add: contents_def)
  from same_contents [OF p, of cash_amount "\<lambda>r. True"]
  have a: "mset (map cash_amount rs) = mset (map cash_amount rs')" by (simp add: contents_def)
  show "exact_counts (map bread_count rs')" if "exact_counts (map bread_count rs)"
    using exact_counts_perm [OF b, of "\<lambda>v. v"] that by simp
  show "exact_amounts k (map cash_amount rs')" if "exact_amounts k (map cash_amount rs)"
    using exact_amounts_perm [OF a, of k "\<lambda>v. v"] that by simp
qed

section \<open>The count that is read from the service's reply\<close>

text \<open>
  C2.  For every reply of the vision service, also a missing one, the count is the double
  nearest to the number that the reply's decimal digits spell, read in their order with all
  other characters deleted.  Up to \<open>2\<^sup>5\<^sup>3\<close> the count is that number itself; without any
  digit it is 0; and it is never negative.
\<close>


theorem breadCount_digits:
  "breadCount t = rd (of_nat (decimal_value (reply_digits t)))
   \<and> (decimal_value (reply_digits t) \<le> 2 ^ 53 \<longrightarrow>
        breadCount t = Finite (of_nat (decimal_value (reply_digits t))))
   \<and> (reply_digits t = [] \<longrightarrow> breadCount t = Finite 0)
   \<and> dle (Finite 0) (breadCount t)"
proof -
  let ?n = "decimal_value (reply_digits t)"
  have a: "breadCount t = rd (of_nat ?n)" by (rule breadCount_rd)
  have b: "?n \<le> 2 ^ 53 \<longrightarrow> breadCount t = Finite (of_nat ?n)"
    by (simp add: a rd_of_nat_exact)
  have c: "reply_digits t = [] \<longrightarrow> breadCount t = Finite 0"
    by (simp add: a decimal_value_def rd_zero)
  have "(0::rat) \<le> of_nat ?n" by simp
  from rd_nonneg [OF this] have d: "dle (Finite 0) (breadCount t)"
    by (auto simp: a dle_def)
  from a b c d show ?thesis by blast
qed

text \<open>The replies \<open>"3 loaves"\<close> and \<open>"no bread here"\<close> give 3 and 0.\<close>

theorem breadCount_digits_witness:
  "decimal_value (reply_digits (Some ''3 loaves'')) \<le> 2 ^ 53
   \<and> breadCount (Some ''3 loaves'') = Finite 3
   \<and> reply_digits (Some ''no bread here'') = []
   \<and> breadCount (Some ''no bread here'') = Finite 0"
proof -
  have d: "decimal_value (reply_digits (Some ''3 loaves'')) = 3"
    by (simp add: reply_digits_def is_digit_def decimal_value_def digit_value_def)
  have e: "reply_digits (Some ''no bread here'') = []"
    by (simp add: reply_digits_def is_digit_def)
  have le: "decimal_value (reply_digits (Some ''3 loaves'')) \<le> 2 ^ 53" by (simp add: d)
  from breadCount_digits [of "Some ''3 loaves''"] le
  have "breadCount (Some ''3 loaves'')
          = Finite (of_nat (decimal_value (reply_digits (Some ''3 loaves''))))"
    by blast
  then have a: "breadCount (Some ''3 loaves'') = Finite 3" by (simp add: d)
  from breadCount_digits [of "Some ''no bread here''"] e
  have b: "breadCount (Some ''no bread here'') = Finite 0" by blast
  from le a e b show ?thesis by blast
qed

text \<open>
  A reply may spell a number that no double represents: the digits of
  \<open>"9007199254740993"\<close> denote \<open>2\<^sup>5\<^sup>3 + 1\<close>, and the count is \<open>2\<^sup>5\<^sup>3\<close>.
\<close>

theorem breadCount_rounds:
  "decimal_value (reply_digits (Some ''9007199254740993'')) = 9007199254740993
   \<and> breadCount (Some ''9007199254740993'') = Finite 9007199254740992"
proof -
  have d: "decimal_value (reply_digits (Some ''9007199254740993'')) = 9007199254740993"
    by (simp add: reply_digits_def is_digit_def decimal_value_def digit_value_def)
  have r: "rd 9007199254740993 = Finite 9007199254740992" by code_simp
  show ?thesis by (simp add: breadCount_rd d r)
qed

section \<open>Creating a record\<close>

text \<open>
  C1.  When \<open>createRecord\<close> answers with \<open>{ id, breadCount }\<close>, the credentials were present,
  the image was a string and one request went to the vision service, which returned a reply;
  \<open>breadCount\<close> is the count read from that reply; the store holds exactly one more record
  than before, appended after the old ones, with a fresh id, which is the \<open>id\<close> of the
  answer, with the time of the insertion, and with a \<open>bread_count\<close> that is numerically the
  count of the answer.  Such an answer is given whenever the credentials are present, the
  image is a string, the service replies, no bound field is a boolean and, where foreign keys
  are enforced, \<open>userId\<close> is NULL or names a user.
\<close>

theorem createRecord_success:
  "(reply (createRecord eng key gen now b db) = Json (i, n) \<longrightarrow>
      (\<exists>img t r. key \<noteq> None \<and> key \<noteq> Some [] \<and> imageBase64 b = JStr img
         \<and> sent (createRecord eng key gen now b db) = [count_request img]
         \<and> gen (count_request img) = Response t \<and> n = breadCount t
         \<and> records (store (createRecord eng key gen now b db)) = records db @ [r]
         \<and> users (store (createRecord eng key gen now b db)) = users db
         \<and> records_id r = i \<and> i \<notin> records_id ` set (records db)
         \<and> bread_count r = real_to_integer n \<and> sql_eq (bread_count r) (SReal n)
         \<and> timestamp r = now))
   \<and> (key \<noteq> None \<and> key \<noteq> Some [] \<and> imageBase64 b = JStr img
        \<and> gen (count_request img) = Response t
        \<and> (\<forall>x. JBool x \<notin> {userId b, employeeName b, providerName b, cashAmount b})
        \<and> (foreign_keys eng \<longrightarrow> (\<exists>v. bind (userId b) = Inr v
              \<and> parent_exists (users db) (integer_affinity eng v))) \<longrightarrow>
      (\<exists>j. reply (createRecord eng key gen now b db) = Json (j, breadCount t)))"
proof (intro conjI impI)
  assume ok: "reply (createRecord eng key gen now b db) = Json (i, n)"
  then obtain img t db' where k: "key \<noteq> None" "key \<noteq> Some []"
    and img: "imageBase64 b = JStr img" and gen: "gen (count_request img) = Response t"
    and n: "n = breadCount t"
    and ins: "insert_record eng now (userId b) (employeeName b) (providerName b)
          (JNum (breadCount t))
          (if cashAmount b = JUndefined then JNum (Finite 0) else cashAmount b)
          (JStr img) db = Inr (i, db')"
    and res: "createRecord eng key gen now b db =
          \<lparr>reply = Json (i, breadCount t), store = db', sent = [count_request img]\<rparr>"
    by (rule createRecord_JsonE)
  from insert_record_appends [OF ins] obtain r where r: "records db' = records db @ [r]"
    "users db' = users db" "records_id r = i" "i \<notin> records_id ` set (records db)"
    "bread_count r = integer_affinity eng (SReal (breadCount t))" "timestamp r = now"
    by (auto simp: breadCount_not_NaN)
  have "sql_eq (bread_count r) (SReal n)"
    using real_to_integer_eq [OF breadCount_not_NaN, of t] by (simp add: r n)
  with k img gen res n r
  show "\<exists>img t r. key \<noteq> None \<and> key \<noteq> Some [] \<and> imageBase64 b = JStr img
         \<and> sent (createRecord eng key gen now b db) = [count_request img]
         \<and> gen (count_request img) = Response t \<and> n = breadCount t
         \<and> records (store (createRecord eng key gen now b db)) = records db @ [r]
         \<and> users (store (createRecord eng key gen now b db)) = users db
         \<and> records_id r = i \<and> i \<notin> records_id ` set (records db)
         \<and> bread_count r = real_to_integer n \<and> sql_eq (bread_count r) (SReal n)
         \<and> timestamp r = now"
    by (intro exI [of _ img] exI [of _ t] exI [of _ r]) simp
next
  assume a: "key \<noteq> None \<and> key \<noteq> Some [] \<and> imageBase64 b = JStr img
        \<and> gen (count_request img) = Response t
        \<and> (\<forall>x. JBool x \<notin> {userId b, employeeName b, providerName b, cashAmount b})
        \<and> (foreign_keys eng \<longrightarrow> (\<exists>v. bind (userId b) = Inr v
              \<and> parent_exists (users db) (integer_affinity eng v)))"
  have bindable: "\<exists>v. bind x = Inr v" if "\<forall>y. x \<noteq> JBool y" for x
    using that by (cases x) auto
  let ?cash = "if cashAmount b = JUndefined then JNum (Finite 0) else cashAmount b"
  from a have "\<forall>y. userId b \<noteq> JBool y" by auto
  then obtain v1 where v1: "bind (userId b) = Inr v1" using bindable by blast
  from a have "\<forall>y. employeeName b \<noteq> JBool y" by auto
  then obtain v2 where v2: "bind (employeeName b) = Inr v2" using bindable by blast
  from a have "\<forall>y. providerName b \<noteq> JBool y" by auto
  then obtain v3 where v3: "bind (providerName b) = Inr v3" using bindable by blast
  from a have "\<forall>y. ?cash \<noteq> JBool y" by auto
  then obtain v5 where v5: "bind ?cash = Inr v5" using bindable by blast
  from a v1 have fk: "foreign_keys eng \<longrightarrow> parent_exists (users db) (integer_affinity eng v1)"
    by auto
  have "\<exists>j db'. insert_record eng now (userId b) (employeeName b) (providerName b)
          (JNum (breadCount t)) ?cash (JStr img) db = Inr (j, db')"
    unfolding insert_record_def using fk
    by (simp add: v1 v2 v3 v5 Let_def breadCount_not_NaN)
  with a show "\<exists>j. reply (createRecord eng key gen now b db) = Json (j, breadCount t)"
    by (auto simp: createRecord_def Let_def)
qed

text \<open>Ana submits an image on which the service sees \<open>"3 loaves"\<close>.\<close>

theorem createRecord_success_witness:
  "reply (createRecord engine (Some ''k'') (replies ''3 loaves'') 100
       (submission data_url (JNum (Finite 1500))) db0) = Json (1, Finite 3)
   \<and> map bread_count (records (store (createRecord engine (Some ''k'') (replies ''3 loaves'') 100
       (submission data_url (JNum (Finite 1500))) db0))) = [SInt 3]
   \<and> map records_id (records (store (createRecord engine (Some ''k'') (replies ''3 loaves'') 100
       (submission data_url (JNum (Finite 1500))) db0))) = [1]"
proof -
  let ?out = "createRecord engine (Some ''k'') (replies ''3 loaves'') 100
       (submission data_url (JNum (Finite 1500))) db0"
  have h: "reply ?out = Json (1, Finite 3)" by code_simp
  from createRecord_success [where eng = engine and key = "Some ''k''"
      and gen = "replies ''3 loaves''" and now = 100
      and b = "submission data_url (JNum (Finite 1500))" and db = db0 and i = 1
      and n = "Finite 3", THEN conjunct1] h
  obtain r where "records (store ?out) = records db0 @ [r]" "records_id r = 1"
    "bread_count r = real_to_integer (Finite 3)"
    by blast
  then have "map bread_count (records (store ?out)) = [SInt 3]"
    "map records_id (records (store ?out)) = [1]"
    by (simp_all add: db0_def)
  with h show ?thesis by simp
qed

text \<open>
  C3.  Without credentials the route answers 500 with \<open>Gemini API key not configured\<close>, sends
  nothing to the service and leaves the store as it was.  When the call to the service
  throws, and on every other path that does not end in \<open>{ id, breadCount }\<close>, it answers 500
  with \<open>Failed to process image\<close> and the store is the one before the call.
\<close>

theorem createRecord_failure:
  "((key = None \<or> key = Some []) \<longrightarrow>
      createRecord eng key gen now b db =
        \<lparr>reply = Status 500 ''Gemini API key not configured'', store = db, sent = []\<rparr>)
   \<and> (key \<noteq> None \<and> key \<noteq> Some [] \<and> imageBase64 b = JStr img
        \<and> gen (count_request img) = Throws \<longrightarrow>
      createRecord eng key gen now b db =
        \<lparr>reply = Status 500 ''Failed to process image'', store = db,
         sent = [count_request img]\<rparr>)
   \<and> ((\<forall>p. reply (createRecord eng key gen now b db) \<noteq> Json p) \<longrightarrow>
      store (createRecord eng key gen now b db) = db
      \<and> (\<exists>msg. reply (createRecord eng key gen now b db) = Status 500 msg \<and> msg \<noteq> []
            \<and> (msg = ''Gemini API key not configured'') = (key = None \<or> key = Some [])))"
proof (intro conjI impI)
  assume "key = None \<or> key = Some []"
  then show "createRecord eng key gen now b db =
        \<lparr>reply = Status 500 ''Gemini API key not configured'', store = db, sent = []\<rparr>"
    by (auto simp: createRecord_def Let_def)
next
  assume "key \<noteq> None \<and> key \<noteq> Some [] \<and> imageBase64 b = JStr img
        \<and> gen (count_request img) = Throws"
  then show "createRecord eng key gen now b db =
        \<lparr>reply = Status 500 ''Failed to process image'', store = db,
         sent = [count_request img]\<rparr>"
    by (simp add: createRecord_def Let_def)
next
  assume no: "\<forall>p. reply (createRecord eng key gen now b db) \<noteq> Json p"
  from createRecord_cases [of key eng gen now b db] no
  show "store (createRecord eng key gen now b db) = db" by auto
next
  assume no: "\<forall>p. reply (createRecord eng key gen now b db) \<noteq> Json p"
  from createRecord_cases [of key eng gen now b db] no
  show "\<exists>msg. reply (createRecord eng key gen now b db) = Status 500 msg \<and> msg \<noteq> []
            \<and> (msg = ''Gemini API key not configured'') = (key = None \<or> key = Some [])"
    by auto
qed

text \<open>
  Missing credentials; a service that throws; a boolean \<open>cashAmount\<close>, which the driver
  refuses to bind after the service has replied.
\<close>

theorem createRecord_failure_witness:
  "createRecord engine None (replies ''3'') 100 (submission data_url JUndefined) db0 =
     \<lparr>reply = Status 500 ''Gemini API key not configured'', store = db0, sent = []\<rparr>
   \<and> createRecord engine (Some ''k'') (\<lambda>rq. Throws) 100 (submission data_url JUndefined) db0 =
     \<lparr>reply = Status 500 ''Failed to process image'', store = db0,
      sent = [count_request data_url]\<rparr>
   \<and> (\<forall>p. reply (createRecord engine (Some ''k'') (replies ''3'') 100
                  (submission data_url (JBool True)) db0) \<noteq> Json p)
   \<and> store (createRecord engine (Some ''k'') (replies ''3'') 100
               (submission data_url (JBool True)) db0) = db0"
proof -
  have i: "imageBase64 (submission data_url JUndefined) = JStr data_url"
    by (simp add: submission_def)
  have r: "reply (createRecord engine (Some ''k'') (replies ''3'') 100
                  (submission data_url (JBool True)) db0) = Status 500 ''Failed to process image''"
    by code_simp
  then have n: "\<forall>p. reply (createRecord engine (Some ''k'') (replies ''3'') 100
                  (submission data_url (JBool True)) db0) \<noteq> Json p"
    by simp
  have a: "createRecord engine None (replies ''3'') 100 (submission data_url JUndefined) db0 =
     \<lparr>reply = Status 500 ''Gemini API key not configured'', store = db0, sent = []\<rparr>"
    using createRecord_failure [where key = None and eng = engine and gen = "replies ''3''"
        and now = 100 and b = "submission data_url JUndefined" and db = db0, THEN conjunct1]
    by simp
  have b: "createRecord engine (Some ''k'') (\<lambda>rq. Throws) 100 (submission data_url JUndefined) db0 =
     \<lparr>reply = Status 500 ''Failed to process image'', store = db0,
      sent = [count_request data_url]\<rparr>"
    using createRecord_failure [where key = "Some ''k''" and eng = engine and gen = "\<lambda>rq. Throws"
        and now = 100 and b = "submission data_url JUndefined" and db = db0 and img = data_url,
        THEN conjunct2, THEN conjunct1] i
    by simp
  have c: "store (createRecord engine (Some ''k'') (replies ''3'') 100
               (submission data_url (JBool True)) db0) = db0"
    using createRecord_failure [where key = "Some ''k''" and eng = engine and gen = "replies ''3''"
        and now = 100 and b = "submission data_url (JBool True)" and db = db0,
        THEN conjunct2, THEN conjunct2] n
    by blast
  show ?thesis by (intro conjI) (rule a b n c)+
qed

text \<open>
  C9.  In the record that a successful submission appends, \<open>cash_amount\<close> is 0 when
  \<open>cashAmount\<close> is absent and the number itself when \<open>cashAmount\<close> is a number.  The route
  does not replace any other value by 0: \<open>null\<close> is stored as NULL, a text that is not a
  number is stored as that text, and a submission with a boolean \<open>cashAmount\<close> is rejected.
  It is the publish form of the client that posts 0 for a cash field without a number at its
  start, and the number that \<open>parseFloat\<close> reads otherwise.
\<close>

theorem createRecord_cash:
  "(reply (createRecord eng key gen now b db) = Json (i, n) \<longrightarrow>
      (\<exists>r. records (store (createRecord eng key gen now b db)) = records db @ [r]
         \<and> (cashAmount b = JUndefined \<longrightarrow> cash_amount r = SReal (Finite 0))
         \<and> (\<forall>x. cashAmount b = JNum x \<and> x \<noteq> NaN \<longrightarrow> cash_amount r = SReal x)
         \<and> (cashAmount b = JNull \<longrightarrow> cash_amount r = SNull)
         \<and> (\<forall>s. cashAmount b = JStr s \<and> text_to_numeric eng s = None \<longrightarrow>
                cash_amount r = SText s)
         \<and> (\<forall>s. cashAmount b = posted_cashAmount s \<and> parseFloat s = NaN \<longrightarrow>
                cash_amount r = SReal (Finite 0))
         \<and> (\<forall>s q. cashAmount b = posted_cashAmount s \<and> parseFloat s = Finite q \<longrightarrow>
                cash_amount r = SReal (Finite q))))
   \<and> (cashAmount b = JBool x \<longrightarrow>
        (\<forall>p. reply (createRecord eng key gen now b db) \<noteq> Json p))"
proof (intro conjI impI)
  assume "reply (createRecord eng key gen now b db) = Json (i, n)"
  then obtain img t db' where
    ins: "insert_record eng now (userId b) (employeeName b) (providerName b)
          (JNum (breadCount t))
          (if cashAmount b = JUndefined then JNum (Finite 0) else cashAmount b)
          (JStr img) db = Inr (i, db')"
    and res: "createRecord eng key gen now b db =
          \<lparr>reply = Json (i, breadCount t), store = db', sent = [count_request img]\<rparr>"
    by (rule createRecord_JsonE)
  from insert_record_appends [OF ins] obtain r v5 where r: "records db' = records db @ [r]"
    "bind (if cashAmount b = JUndefined then JNum (Finite 0) else cashAmount b) = Inr v5"
    "cash_amount r = real_affinity eng v5"
    by blast
  have "cashAmount b = JUndefined \<longrightarrow> cash_amount r = SReal (Finite 0)"
    using r by auto
  moreover have "\<forall>x. cashAmount b = JNum x \<and> x \<noteq> NaN \<longrightarrow> cash_amount r = SReal x"
    using r by auto
  moreover have "cashAmount b = JNull \<longrightarrow> cash_amount r = SNull"
    using r by auto
  moreover have "\<forall>s. cashAmount b = JStr s \<and> text_to_numeric eng s = None \<longrightarrow>
                cash_amount r = SText s"
    using r by auto
  moreover have "\<forall>s. cashAmount b = posted_cashAmount s \<and> parseFloat s = NaN \<longrightarrow>
                cash_amount r = SReal (Finite 0)"
    using r by (auto simp: posted_cashAmount_NaN)
  moreover have "\<forall>s q. cashAmount b = posted_cashAmount s \<and> parseFloat s = Finite q \<longrightarrow>
                cash_amount r = SReal (Finite q)"
    using r by (auto simp: posted_cashAmount_Finite)
  ultimately show "\<exists>r. records (store (createRecord eng key gen now b db)) = records db @ [r]
         \<and> (cashAmount b = JUndefined \<longrightarrow> cash_amount r = SReal (Finite 0))
         \<and> (\<forall>x. cashAmount b = JNum x \<and> x \<noteq> NaN \<longrightarrow> cash_amount r = SReal x)
         \<and> (cashAmount b = JNull \<longrightarrow> cash_amount r = SNull)
         \<and> (\<forall>s. cashAmount b = JStr s \<and> text_to_numeric eng s = None \<longrightarrow>
                cash_amount r = SText s)
         \<and> (\<forall>s. cashAmount b = posted_cashAmount s \<and> parseFloat s = NaN \<longrightarrow>
                cash_amount r = SReal (Finite 0))
         \<and> (\<forall>s q. cashAmount b = posted_cashAmount s \<and> parseFloat s = Finite q \<longrightarrow>
                cash_amount r = SReal (Finite q))"
    using r(1) res by (intro exI [of _ r]) simp
next
  assume c: "cashAmount b = JBool x"
  show "\<forall>p. reply (createRecord eng key gen now b db) \<noteq> Json p"
  proof (intro allI notI)
    fix p
    assume "reply (createRecord eng key gen now b db) = Json p"
    then have "reply (createRecord eng key gen now b db) = Json (fst p, snd p)" by simp
    then obtain img t db' where
      "insert_record eng now (userId b) (employeeName b) (providerName b)
          (JNum (breadCount t))
          (if cashAmount b = JUndefined then JNum (Finite 0) else cashAmount b)
          (JStr img) db = Inr (fst p, db')"
      by (rule createRecord_JsonE)
    with c show False by (simp add: insert_record_def split: sum.splits)
  qed
qed

theorem createRecord_cash_witness:
  "reply (createRecord engine (Some ''k'') (replies ''3 loaves'') 100
       (submission data_url JUndefined) db0) = Json (1, Finite 3)
   \<and> map cash_amount (records (store (createRecord engine (Some ''k'') (replies ''3 loaves'') 100
       (submission data_url JUndefined) db0))) = [SReal (Finite 0)]
   \<and> reply (createRecord engine (Some ''k'') (replies ''3 loaves'') 100
       (submission data_url (JNum (Finite 1500))) db0) = Json (1, Finite 3)
   \<and> map cash_amount (records (store (createRecord engine (Some ''k'') (replies ''3 loaves'') 100
       (submission data_url (JNum (Finite 1500))) db0))) = [SReal (Finite 1500)]
   \<and> parseFloat ''abc'' = NaN
   \<and> reply (createRecord engine (Some ''k'') (replies ''3 loaves'') 100
       (submission data_url (posted_cashAmount ''abc'')) db0) = Json (1, Finite 3)
   \<and> map cash_amount (records (store (createRecord engine (Some ''k'') (replies ''3 loaves'') 100
       (submission data_url (posted_cashAmount ''abc'')) db0))) = [SReal (Finite 0)]"
proof -
  let ?a = "createRecord engine (Some ''k'') (replies ''3 loaves'') 100
       (submission data_url JUndefined) db0"
  let ?b = "createRecord engine (Some ''k'') (replies ''3 loaves'') 100
       (submission data_url (JNum (Finite 1500))) db0"
  let ?c = "createRecord engine (Some ''k'') (replies ''3 loaves'') 100
       (submission data_url (posted_cashAmount ''abc'')) db0"
  have ha: "reply ?a = Json (1, Finite 3)" by code_simp
  have hb: "reply ?b = Json (1, Finite 3)" by code_simp
  have hc: "reply ?c = Json (1, Finite 3)" by code_simp
  have pf: "parseFloat ''abc'' = NaN" by code_simp
  have ca: "cashAmount (submission data_url JUndefined) = JUndefined"
    by (simp add: submission_def)
  have cb: "cashAmount (submission data_url (JNum (Finite 1500))) = JNum (Finite 1500)"
    by (simp add: submission_def)
  have cc: "cashAmount (submission data_url (posted_cashAmount ''abc'')) = posted_cashAmount ''abc''"
    by (simp add: submission_def)
  from createRecord_cash [where eng = engine and key = "Some ''k''"
      and gen = "replies ''3 loaves''" and now = 100
      and b = "submission data_url JUndefined" and db = db0 and i = 1
      and n = "Finite 3", THEN conjunct1] ha ca
  obtain r where "records (store ?a) = records db0 @ [r]" "cash_amount r = SReal (Finite 0)"
    by blast
  then have a: "map cash_amount (records (store ?a)) = [SReal (Finite 0)]"
    by (simp add: db0_def)
  from createRecord_cash [where eng = engine and key = "Some ''k''"
      and gen = "replies ''3 loaves''" and now = 100
      and b = "submission data_url (JNum (Finite 1500))" and db = db0 and i = 1
      and n = "Finite 3", THEN conjunct1] hb cb
  obtain r' where "records (store ?b) = records db0 @ [r']" "cash_amount r' = SReal (Finite 1500)"
    by blast
  then have b: "map cash_amount (records (store ?b)) = [SReal (Finite 1500)]"
    by (simp add: db0_def)
  from createRecord_cash [where eng = engine and key = "Some ''k''"
      and gen = "replies ''3 loaves''" and now = 100
      and b = "submission data_url (posted_cashAmount ''abc'')" and db = db0 and i = 1
      and n = "Finite 3", THEN conjunct1] hc cc pf
  obtain r'' where "records (store ?c) = records db0 @ [r'']" "cash_amount r'' = SReal (Finite 0)"
    by blast
  then have c: "map cash_amount (records (store ?c)) = [SReal (Finite 0)]"
    by (simp add: db0_def)
  show ?thesis by (intro conjI) (rule ha a hb b pf hc c)+
qed

text \<open>
  A request with \<open>cashAmount: "abc"\<close>, which the form would not send, is accepted and stores
  the text.
\<close>

theorem createRecord_cash_text:
  "reply (createRecord engine (Some ''k'') (replies ''3 loaves'') 100
       (submission data_url (JStr ''abc'')) db0) = Json (1, Finite 3)
   \<and> map cash_amount (records (store (createRecord engine (Some ''k'') (replies ''3 loaves'') 100
       (submission data_url (JStr ''abc'')) db0))) = [SText ''abc'']"
  by code_simp

text \<open>
  C10.  With credentials present and a string as image, exactly one request is sent, with the
  fixed prompt and MIME type.  Its image data is the part of the payload between the first
  and the second comma; for a payload whose only comma ends a data-URI prefix that is the
  payload without the prefix.  A payload without a comma sends no image data at all.
\<close>

theorem createRecord_transmits:
  assumes "key \<noteq> None" and "key \<noteq> Some []" and "imageBase64 b = JStr img"
  shows "\<exists>rq. sent (createRecord eng key gen now b db) = [rq]
           \<and> prompt rq = count_prompt \<and> mimeType rq = ''image/jpeg''
           \<and> data rq =
               (if CHR '','' \<in> set img
                then JStr (takeWhile (\<lambda>c. c \<noteq> CHR '','')
                             (tl (dropWhile (\<lambda>c. c \<noteq> CHR '','') img)))
                else JUndefined)
           \<and> (\<forall>p d. img = p @ CHR '','' # d \<and> CHR '','' \<notin> set p \<and> CHR '','' \<notin> set d \<longrightarrow>
                 data rq = JStr d)"
proof -
  from createRecord_cases [of key eng gen now b db] assms
  have s: "sent (createRecord eng key gen now b db) = [count_request img]" by auto
  have p: "prompt (count_request img) = count_prompt"
    and m: "mimeType (count_request img) = ''image/jpeg''"
    by (simp_all add: count_request_def)
  have d: "data (count_request img) =
               (if CHR '','' \<in> set img
                then JStr (takeWhile (\<lambda>c. c \<noteq> CHR '','')
                             (tl (dropWhile (\<lambda>c. c \<noteq> CHR '','') img)))
                else JUndefined)"
    using inline_data_eq [of img] by (simp add: count_request_def)
  have u: "\<forall>p d. img = p @ CHR '','' # d \<and> CHR '','' \<notin> set p \<and> CHR '','' \<notin> set d \<longrightarrow>
          data (count_request img) = JStr d"
    by (auto simp: count_request_def inline_data_after)
  show ?thesis by (intro exI [of _ "count_request img"] conjI) (rule s p m d u)+
qed

theorem createRecord_transmits_witness:
  "map data (sent (createRecord engine (Some ''k'') (replies ''3 loaves'') 100
       (submission data_url JUndefined) db0)) = [JStr ''AAAA'']"
proof -
  have i: "imageBase64 (submission data_url JUndefined) = JStr data_url"
    by (simp add: submission_def)
  from createRecord_transmits [where key = "Some ''k''" and b = "submission data_url JUndefined"
      and img = data_url and eng = engine and gen = "replies ''3 loaves''" and now = 100
      and db = db0, OF _ _ i]
  obtain rq where "sent (createRecord engine (Some ''k'') (replies ''3 loaves'') 100
       (submission data_url JUndefined) db0) = [rq]"
    "data rq = (if CHR '','' \<in> set data_url
                then JStr (takeWhile (\<lambda>c. c \<noteq> CHR '','')
                             (tl (dropWhile (\<lambda>c. c \<noteq> CHR '','') data_url)))
                else JUndefined)"
    by auto
  then show ?thesis by (simp add: data_url_def)
qed

text \<open>The bare payload \<open>"AAAA"\<close> is not transmitted: the request carries \<open>undefined\<close>.\<close>

theorem createRecord_transmits_nothing:
  "map data (sent (createRecord engine (Some ''k'') (replies ''3 loaves'') 100
       (submission ''AAAA'' JUndefined) db0)) = [JUndefined]"
  by code_simp

section \<open>Listing records\<close>

text \<open>
  C6.  With the role \<open>admin\<close> the listing holds every record of the store, each as often as
  the store does; with any other role it holds exactly the records whose \<open>user_id\<close> equals the
  \<open>userId\<close> of the query, compared as SQL compares an INTEGER column with a text parameter: for
  a \<open>userId\<close> that denotes the integer \<open>n\<close> these are the records of user \<open>n\<close>, and a missing
  \<open>userId\<close> matches nothing.  Every listing is contained in the full one and is ordered by
  \<open>timestamp\<close> descending; records with the same timestamp keep the order of the table.
\<close>

theorem getRecords_listing:
  "mset (getRecords eng u (Some ''admin'') db) = mset (records db)
   \<and> (q \<noteq> Some ''admin'' \<longrightarrow>
        mset (getRecords eng u q db) = mset (filter (owned_by eng u) (records db)))
   \<and> set (getRecords eng u q db) \<subseteq> set (getRecords eng u' (Some ''admin'') db)
   \<and> sorted_wrt (\<lambda>a b. timestamp b \<le> timestamp a) (getRecords eng u q db)
   \<and> filter (\<lambda>r. timestamp r = t) (getRecords eng u q db)
       = filter (\<lambda>r. timestamp r = t)
           (if q = Some ''admin'' then records db else filter (owned_by eng u) (records db))
   \<and> (text_to_numeric eng s = Some (SInt n) \<longrightarrow>
        owned_by eng (Some s) r = sql_eq (user_id r) (SInt n))
   \<and> \<not> owned_by eng None r"
proof (intro conjI impI)
  show "mset (getRecords eng u (Some ''admin'') db) = mset (records db)"
    by (simp add: getRecords_def newest_first_mset)
  show "mset (getRecords eng u q db) = mset (filter (owned_by eng u) (records db))"
    if "q \<noteq> Some ''admin''"
    using that by (simp add: getRecords_def newest_first_mset)
  have "set (getRecords eng u q db) \<subseteq> set (records db)"
    using newest_first_mset [of "records db", THEN mset_eq_setD]
      newest_first_mset [of "filter (owned_by eng u) (records db)", THEN mset_eq_setD]
    by (auto simp: getRecords_def)
  also have "set (records db) = set (getRecords eng u' (Some ''admin'') db)"
    using newest_first_mset [of "records db", THEN mset_eq_setD] by (simp add: getRecords_def)
  finally show "set (getRecords eng u q db) \<subseteq> set (getRecords eng u' (Some ''admin'') db)" .
  show "sorted_wrt (\<lambda>a b. timestamp b \<le> timestamp a) (getRecords eng u q db)"
    by (simp add: getRecords_def newest_first_sorted)
  show "filter (\<lambda>r. timestamp r = t) (getRecords eng u q db)
       = filter (\<lambda>r. timestamp r = t)
           (if q = Some ''admin'' then records db else filter (owned_by eng u) (records db))"
    by (simp add: getRecords_def newest_first_stable)
  show "owned_by eng (Some s) r = sql_eq (user_id r) (SInt n)"
    if "text_to_numeric eng s = Some (SInt n)"
    using that by (simp add: owned_by_def query_parameter_def)
  show "\<not> owned_by eng None r"
    by (cases "user_id r") (simp_all add: owned_by_def query_parameter_def)
qed

text \<open>Ana's three records, the two newest with equal timestamps, among the four of the store.\<close>

theorem getRecords_listing_witness:
  "map records_id (getRecords engine (Some ''2'') (Some ''employee'') two_users) = [3, 4, 1]
   \<and> map records_id (getRecords engine (Some ''2'') (Some ''admin'') two_users) = [3, 4, 2, 1]
   \<and> set (getRecords engine (Some ''2'') (Some ''employee'') two_users)
       \<subseteq> set (getRecords engine None (Some ''admin'') two_users)
   \<and> text_to_numeric engine ''2'' = Some (SInt 2)
   \<and> mset (getRecords engine (Some ''2'') (Some ''employee'') two_users)
       = mset (filter (\<lambda>r. sql_eq (user_id r) (SInt 2)) (records two_users))"
proof -
  have a: "map records_id (getRecords engine (Some ''2'') (Some ''employee'') two_users) = [3, 4, 1]"
    by code_simp
  have b: "map records_id (getRecords engine (Some ''2'') (Some ''admin'') two_users) = [3, 4, 2, 1]"
    by code_simp
  have n: "text_to_numeric engine ''2'' = Some (SInt 2)" by code_simp
  note t = getRecords_listing [where eng = engine and u = "Some ''2''" and q = "Some ''employee''"
      and db = two_users and u' = None and s = "''2''" and n = 2]
  from t have c: "set (getRecords engine (Some ''2'') (Some ''employee'') two_users)
       \<subseteq> set (getRecords engine None (Some ''admin'') two_users)"
    by blast
  from t n have o: "owned_by engine (Some ''2'') = (\<lambda>r. sql_eq (user_id r) (SInt 2))"
    by (intro ext) blast
  from t have "mset (getRecords engine (Some ''2'') (Some ''employee'') two_users)
       = mset (filter (owned_by engine (Some ''2'')) (records two_users))"
    by simp
  then have d: "mset (getRecords engine (Some ''2'') (Some ''employee'') two_users)
       = mset (filter (\<lambda>r. sql_eq (user_id r) (SInt 2)) (records two_users))"
    by (simp only: o)
  show ?thesis by (intro conjI) (rule a b c n d)+
qed

section \<open>Records are never changed or removed\<close>

text \<open>
  C7.  Whatever sequence of requests is served (records created, listings, statistics,
  profile updates, deletions of users, signups), the records that were in the store are still
  there afterwards, at the same positions and equal field by field; new records only follow
  them.  In particular a profile update and the deletion of a user leave the table of records
  as it is, with the names the records were created with.
\<close>

theorem records_immutable:
  "prefix (records db) (records (serve eng db rqs))
   \<and> (\<forall>i<length (records db). records (serve eng db rqs) ! i = records db ! i)
   \<and> records (snd (putProfile eng i e n p db)) = records db
   \<and> records (snd (deleteUser eng u db)) = records db"
proof -
  have p: "prefix (records db) (records (serve eng db rqs))" by (rule serve_records)
  then have "\<forall>i<length (records db). records (serve eng db rqs) ! i = records db ! i"
    by (auto simp: prefix_def nth_append)
  with p show ?thesis by (simp add: putProfile_records deleteUser_records)
qed

text \<open>
  Without foreign keys user 2 can be deleted after being renamed: her first record is the one
  that was stored, name included.
\<close>

theorem records_immutable_witness:
  "(0::nat) < length (records two_users)
   \<and> records (serve plain_engine two_users later_requests) ! 0 = row 1 ''Ana'' 3 1500 100
   \<and> map name (users (serve plain_engine two_users later_requests))
       = [Some ''Administrator'', Some ''Rui'']"
proof -
  have l: "(0::nat) < length (records two_users)" by (simp add: two_users_def)
  have u: "map name (users (serve plain_engine two_users later_requests))
       = [Some ''Administrator'', Some ''Rui'']"
    by code_simp
  from records_immutable [where db = two_users and eng = plain_engine and rqs = later_requests] l
  have "records (serve plain_engine two_users later_requests) ! 0 = records two_users ! 0"
    by blast
  then have r: "records (serve plain_engine two_users later_requests) ! 0 = row 1 ''Ana'' 3 1500 100"
    by (simp add: two_users_def)
  show ?thesis by (intro conjI) (rule l r u)+
qed

section \<open>Statistics\<close>




text \<open>
  C4.  The query returns exactly when \<open>SUM(bread_count)\<close> and \<open>SUM(cash_amount)\<close> have a
  value on each of the seven most recent days that have records; older records play no part
  in that.  When it returns, it has at most seven entries, in strictly descending order of
  date, one for each of these days; a date with records is left out only when seven later
  dates have records.  The date of a record is the UTC day of its insertion.  \<open>total\<close> and
  \<open>total_cash\<close> are \<open>SUM(bread_count)\<close> and \<open>SUM(cash_amount)\<close> over the records of that
  day, and they are the sums of the counts and amounts if those of the seven most recent days
  can be summed without overflow and rounding, in which case the query returns.
\<close>

theorem totalByDay_rollup:
  "(totalByDay eng rs = Inr es \<longrightarrow>
      length es \<le> 7
      \<and> sorted_wrt (\<lambda>a b. fst b < fst a) es
      \<and> fst ` set es = (\<lambda>r. date (timestamp r)) ` set (filter (recent rs) rs)
      \<and> (\<forall>r\<in>set rs. date (timestamp r) \<notin> fst ` set es \<longrightarrow>
            length es = 7 \<and> (\<forall>e\<in>set es. date (timestamp r) < fst e))
      \<and> (\<forall>e\<in>set es.
            sqlite_sum eng (map bread_count (filter (\<lambda>r. date (timestamp r) = fst e) rs))
              = Inr (fst (snd e))
          \<and> sqlite_sum eng (map cash_amount (filter (\<lambda>r. date (timestamp r) = fst e) rs))
              = Inr (snd (snd e))))
   \<and> ((\<exists>es. totalByDay eng rs = Inr es) \<longleftrightarrow>
        (\<forall>r\<in>set (filter (recent rs) rs).
           (\<exists>t. sqlite_sum eng (map bread_count
                   (filter (\<lambda>r'. date (timestamp r') = date (timestamp r)) rs)) = Inr t)
         \<and> (\<exists>c. sqlite_sum eng (map cash_amount
                   (filter (\<lambda>r'. date (timestamp r') = date (timestamp r)) rs)) = Inr c)))
   \<and> (exact_counts (map bread_count (filter (recent rs) rs))
        \<and> exact_amounts k (map cash_amount (filter (recent rs) rs)) \<longrightarrow>
        (\<exists>es. totalByDay eng rs = Inr es
           \<and> (\<forall>e\<in>set es.
                 fst (snd e) = SInt (count_sum (filter (\<lambda>r. date (timestamp r) = fst e) rs))
               \<and> snd (snd e)
                   = SReal (Finite (cash_sum (filter (\<lambda>r. date (timestamp r) = fst e) rs))))))"
  (is "?sound \<and> ?returns \<and> ?exact")
proof (intro conjI)
  show ?sound
  proof
    assume r: "totalByDay eng rs = Inr es"
    show "length es \<le> 7
      \<and> sorted_wrt (\<lambda>a b. fst b < fst a) es
      \<and> fst ` set es = (\<lambda>r. date (timestamp r)) ` set (filter (recent rs) rs)
      \<and> (\<forall>r\<in>set rs. date (timestamp r) \<notin> fst ` set es \<longrightarrow>
            length es = 7 \<and> (\<forall>e\<in>set es. date (timestamp r) < fst e))
      \<and> (\<forall>e\<in>set es.
            sqlite_sum eng (map bread_count (filter (\<lambda>r. date (timestamp r) = fst e) rs))
              = Inr (fst (snd e))
          \<and> sqlite_sum eng (map cash_amount (filter (\<lambda>r. date (timestamp r) = fst e) rs))
              = Inr (snd (snd e)))"
      by (intro conjI) (rule totals_by_day_sound [OF r])+
  qed
  show ?returns by (rule totals_by_day_returns)
  show ?exact by (rule impI, erule conjE) (erule totals_by_day_exact)
qed

text \<open>
  Ten records on nine days: the two oldest days are cut off.  Then a store whose oldest day
  has counts that overflow: that day is the ninth, and the query returns the seven newest.
\<close>

theorem totalByDay_rollup_witness:
  "totalByDay engine nine_days
     = Inr [(8, SInt 14, SReal (Finite 87)), (7, SInt 8, SReal (Finite 70)),
            (6, SInt 7, SReal (Finite 60)), (5, SInt 6, SReal (Finite 50)),
            (4, SInt 5, SReal (Finite 40)), (3, SInt 4, SReal (Finite 30)),
            (2, SInt 3, SReal (Finite 20))]
   \<and> exact_counts (map bread_count (filter (recent nine_days) nine_days))
   \<and> exact_amounts 0 (map cash_amount (filter (recent nine_days) nine_days))
   \<and> count_sum (filter (\<lambda>r. date (timestamp r) = 8) nine_days) = 14
   \<and> cash_sum (filter (\<lambda>r. date (timestamp r) = 8) nine_days) = 87
   \<and> totalByDay engine old_overflow
     = Inr [(8, SInt 8, SReal (Finite 80)), (7, SInt 7, SReal (Finite 70)),
            (6, SInt 6, SReal (Finite 60)), (5, SInt 5, SReal (Finite 50)),
            (4, SInt 4, SReal (Finite 40)), (3, SInt 3, SReal (Finite 30)),
            (2, SInt 2, SReal (Finite 20))]
   \<and> sqlite_sum engine (map bread_count (filter (\<lambda>r. date (timestamp r) = 0) old_overflow))
     = Inl IntegerOverflow
   \<and> (\<lambda>r. date (timestamp r)) ` set (filter (recent old_overflow) old_overflow)
     = {8, 7, 6, 5, 4, 3, 2}
   \<and> (\<exists>t. sqlite_sum engine (map bread_count
                (filter (\<lambda>r. date (timestamp r) = 2) old_overflow)) = Inr t)"
proof -
  let ?es = "[(8, SInt 14, SReal (Finite 87)), (7, SInt 8, SReal (Finite 70)),
            (6, SInt 7, SReal (Finite 60)), (5, SInt 6, SReal (Finite 50)),
            (4, SInt 5, SReal (Finite 40)), (3, SInt 4, SReal (Finite 30)),
            (2::int, SInt 3, SReal (Finite 20))]"
  let ?os = "[(8, SInt 8, SReal (Finite 80)), (7, SInt 7, SReal (Finite 70)),
            (6, SInt 6, SReal (Finite 60)), (5, SInt 5, SReal (Finite 50)),
            (4, SInt 4, SReal (Finite 40)), (3, SInt 3, SReal (Finite 30)),
            (2::int, SInt 2, SReal (Finite 20))]"
  have h: "totalByDay engine nine_days = Inr ?es" by code_simp
  have c: "exact_counts (map bread_count (filter (recent nine_days) nine_days))" by code_simp
  have a: "exact_amounts 0 (map cash_amount (filter (recent nine_days) nine_days))" by code_simp
  from totalByDay_rollup [where eng = engine and rs = nine_days and k = 0,
      THEN conjunct2, THEN conjunct2] c a h
  have "\<forall>e\<in>set ?es.
          fst (snd e) = SInt (count_sum (filter (\<lambda>r. date (timestamp r) = fst e) nine_days))
        \<and> snd (snd e) = SReal (Finite (cash_sum (filter (\<lambda>r. date (timestamp r) = fst e) nine_days)))"
    by auto
  then have s: "count_sum (filter (\<lambda>r. date (timestamp r) = 8) nine_days) = 14"
    "cash_sum (filter (\<lambda>r. date (timestamp r) = 8) nine_days) = 87"
    by simp_all
  have o: "totalByDay engine old_overflow = Inr ?os" by code_simp
  have v: "sqlite_sum engine (map bread_count (filter (\<lambda>r. date (timestamp r) = 0) old_overflow))
     = Inl IntegerOverflow" by code_simp
  from totalByDay_rollup [where eng = engine and rs = old_overflow and es = ?os,
      THEN conjunct1] o
  have "fst ` set ?os = (\<lambda>r. date (timestamp r)) ` set (filter (recent old_overflow) old_overflow)"
    by blast
  then have d: "(\<lambda>r. date (timestamp r)) ` set (filter (recent old_overflow) old_overflow)
     = {8, 7, 6, 5, 4, 3, 2}" by simp
  from totalByDay_rollup [where eng = engine and rs = old_overflow,
      THEN conjunct2, THEN conjunct1] o
  have q: "\<forall>r\<in>set (filter (recent old_overflow) old_overflow).
         \<exists>t. sqlite_sum engine (map bread_count
                (filter (\<lambda>r'. date (timestamp r') = date (timestamp r)) old_overflow)) = Inr t"
    by blast
  have m: "row 4 ''Ana'' 2 20 176400 \<in> set (filter (recent old_overflow) old_overflow)"
    by code_simp
  have n: "date (timestamp (row 4 ''Ana'' 2 20 176400)) = 2" by code_simp
  from q m have "\<exists>t. sqlite_sum engine (map bread_count
        (filter (\<lambda>r'. date (timestamp r') = date (timestamp (row 4 ''Ana'' 2 20 176400)))
           old_overflow)) = Inr t"
    by (rule bspec)
  then have r: "\<exists>t. sqlite_sum engine (map bread_count
                (filter (\<lambda>r. date (timestamp r) = 2) old_overflow)) = Inr t"
    by (simp only: n)
  show ?thesis by (intro conjI) (rule h c a s o v d r)+
qed

text \<open>
  Two records inserted at 22:00 and 23:30 UTC of the same day.  On a server one hour ahead of
  UTC the second one belongs to the next local day; the query has one entry for both.
\<close>

theorem totalByDay_utc_day:
  "totalByDay engine [row 1 ''Ana'' 3 5 79200, row 2 ''Ana'' 1 1 84600]
     = Inr [(0, SInt 4, SReal (Finite 6))]
   \<and> local_date 3600 79200 = 0 \<and> local_date 3600 84600 = 1"
  by code_simp

text \<open>
  C8.  Two stores that were filled from the same store by the same submissions, served in
  different orders and at different times, hold records of the same contents.  For two stores
  whose records have the same contents: if the counts are non-negative integers with a total
  below \<open>2\<^sup>6\<^sup>3\<close>, the same employees have the same \<open>total\<close> whenever both queries return; if
  moreover the amounts can be summed without rounding, both queries return and their entries
  are the same.
\<close>

theorem totalByEmployee_permutation:
  "(list_all (\<lambda>rq. submitted rq \<noteq> None) rqs \<and> mset (map submitted rqs) = mset (map submitted rqs')
      \<longrightarrow> mset (map contents (records (serve eng db rqs)))
          = mset (map contents (records (serve eng db rqs'))))
   \<and> (mset (map contents rs) = mset (map contents rs') \<longrightarrow>
       (exact_counts (map bread_count rs) \<and> totalByEmployee eng rs = Inr es
          \<and> totalByEmployee eng rs' = Inr es' \<longrightarrow>
          (\<lambda>e. (fst e, fst (snd e))) ` set es = (\<lambda>e. (fst e, fst (snd e))) ` set es')
     \<and> (exact_counts (map bread_count rs) \<and> exact_amounts k (map cash_amount rs) \<longrightarrow>
          (\<exists>es es'. totalByEmployee eng rs = Inr es \<and> totalByEmployee eng rs' = Inr es'
             \<and> mset es = mset es')))"
proof (intro impI conjI)
  assume "list_all (\<lambda>rq. submitted rq \<noteq> None) rqs
      \<and> mset (map submitted rqs) = mset (map submitted rqs')"
  then show "mset (map contents (records (serve eng db rqs)))
          = mset (map contents (records (serve eng db rqs')))"
    by (elim conjE) (rule serve_permuted)
next
  assume p: "mset (map contents rs) = mset (map contents rs')"
  assume "exact_counts (map bread_count rs) \<and> totalByEmployee eng rs = Inr es
        \<and> totalByEmployee eng rs' = Inr es'"
  then have c: "exact_counts (map bread_count rs)" and r: "totalByEmployee eng rs = Inr es"
    and r': "totalByEmployee eng rs' = Inr es'" by simp_all
  note s = same_contents_totals [OF p]
  from c have c': "exact_counts (map bread_count rs')" by (rule s(4))
  show "(\<lambda>e. (fst e, fst (snd e))) ` set es = (\<lambda>e. (fst e, fst (snd e))) ` set es'"
    by (simp only: employee_counts [OF c r] employee_counts [OF c' r'] s(1) s(2))
next
  assume p: "mset (map contents rs) = mset (map contents rs')"
  assume "exact_counts (map bread_count rs) \<and> exact_amounts k (map cash_amount rs)"
  then have c: "exact_counts (map bread_count rs)" and a: "exact_amounts k (map cash_amount rs)"
    by simp_all
  note s = same_contents_totals [OF p]
  from c have c': "exact_counts (map bread_count rs')" by (rule s(4))
  from a have a': "exact_amounts k (map cash_amount rs')" by (rule s(5))
  from employee_totals_determined [OF c a, of eng] employee_totals_determined [OF c' a', of eng]
  obtain es es' where "totalByEmployee eng rs = Inr es" "totalByEmployee eng rs' = Inr es'"
    "distinct es" "distinct es'" "set es = set es'"
    by (auto simp only: s(1) s(2) s(3))
  then show "\<exists>es es'. totalByEmployee eng rs = Inr es \<and> totalByEmployee eng rs' = Inr es'
           \<and> mset es = mset es'"
    by (metis set_eq_iff_mset_eq_distinct)
qed

text \<open>
  Three submissions, and the same with the first and the last exchanged: the tables differ,
  the totals do not.
\<close>

theorem totalByEmployee_permutation_witness:
  "list_all (\<lambda>rq. submitted rq \<noteq> None) ana_first
   \<and> mset (map submitted ana_first) = mset (map submitted ana_last)
   \<and> map (\<lambda>r. (records_id r, bread_count r, timestamp r)) (records (serve engine db0 ana_first))
     = [(1, SInt 3, 100), (2, SInt 7, 200), (3, SInt 0, 300)]
   \<and> map (\<lambda>r. (records_id r, bread_count r, timestamp r)) (records (serve engine db0 ana_last))
     = [(1, SInt 0, 100), (2, SInt 7, 200), (3, SInt 3, 300)]
   \<and> mset (map contents (records (serve engine db0 ana_first)))
     = mset (map contents (records (serve engine db0 ana_last)))
   \<and> exact_counts (map bread_count (records (serve engine db0 ana_first)))
   \<and> exact_amounts 0 (map cash_amount (records (serve engine db0 ana_first)))
   \<and> (\<exists>es es'. totalByEmployee engine (records (serve engine db0 ana_first)) = Inr es
          \<and> totalByEmployee engine (records (serve engine db0 ana_last)) = Inr es'
          \<and> mset es = mset es')
   \<and> totalByEmployee engine (records (serve engine db0 ana_last))
     = Inr [(Some ''Bia'', SInt 7, SReal (Finite 200)), (Some ''Ana'', SInt 3, SReal (Finite 1500))]"
proof -
  let ?rs = "records (serve engine db0 ana_first)" and ?rs' = "records (serve engine db0 ana_last)"
  have l: "list_all (\<lambda>rq. submitted rq \<noteq> None) ana_first"
    by (simp add: ana_first_def publish_def)
  have p: "mset (map submitted ana_first) = mset (map submitted ana_last)"
    by (simp add: ana_first_def ana_last_def publish_def)
  have t: "map (\<lambda>r. (records_id r, bread_count r, timestamp r)) ?rs
     = [(1, SInt 3, 100), (2, SInt 7, 200), (3, SInt 0, 300)]" by code_simp
  have t': "map (\<lambda>r. (records_id r, bread_count r, timestamp r)) ?rs'
     = [(1, SInt 0, 100), (2, SInt 7, 200), (3, SInt 3, 300)]" by code_simp
  from totalByEmployee_permutation [where rqs = ana_first and rqs' = ana_last
      and eng = engine and db = db0, THEN conjunct1] l p
  have m: "mset (map contents ?rs) = mset (map contents ?rs')" by blast
  have c: "exact_counts (map bread_count ?rs)" by code_simp
  have a: "exact_amounts 0 (map cash_amount ?rs)" by code_simp
  from totalByEmployee_permutation [where rs = ?rs and rs' = ?rs' and eng = engine and k = 0,
      THEN conjunct2, THEN mp, OF m, THEN conjunct2] c a
  have e: "\<exists>es es'. totalByEmployee engine ?rs = Inr es \<and> totalByEmployee engine ?rs' = Inr es'
          \<and> mset es = mset es'"
    by blast
  have v: "totalByEmployee engine ?rs'
     = Inr [(Some ''Bia'', SInt 7, SReal (Finite 200)), (Some ''Ana'', SInt 3, SReal (Finite 1500))]"
    by code_simp
  show ?thesis by (intro conjI) (rule l p t t' m c a e v)+
qed

text \<open>
  Four submissions with the amounts \<open>2\<^sup>1\<^sup>0\<^sup>6\<close>, \<open>2\<^sup>5\<^sup>3\<close>, 1 and 1.  Served in this order their
  \<open>total_cash\<close> is \<open>2\<^sup>1\<^sup>0\<^sup>6\<close>, served in the reverse order it is \<open>2\<^sup>1\<^sup>0\<^sup>6 + 2\<^sup>5\<^sup>4\<close>; both tables have
  the ids 1 to 4 and ascending timestamps.  This is so with compensated summation and, as
  the lemma after it shows, with plain summation too.
\<close>

theorem totalByEmployee_order_matters:
  "list_all (\<lambda>rq. submitted rq \<noteq> None) big_first
   \<and> mset (map submitted big_first) = mset (map submitted big_last)
   \<and> map (\<lambda>r. (records_id r, timestamp r)) (records (serve engine db0 big_first))
     = [(1, 10), (2, 20), (3, 30), (4, 40)]
   \<and> map (\<lambda>r. (records_id r, timestamp r)) (records (serve engine db0 big_last))
     = [(1, 10), (2, 20), (3, 30), (4, 40)]
   \<and> totalByEmployee engine (records (serve engine db0 big_first))
       = Inr [(Some ''Ana'', SInt 5, SReal (Finite 81129638414606681695789005144064))]
   \<and> totalByEmployee engine (records (serve engine db0 big_last))
       = Inr [(Some ''Ana'', SInt 5, SReal (Finite 81129638414606699710187514626048))]"
proof -
  have l: "list_all (\<lambda>rq. submitted rq \<noteq> None) big_first"
    by (simp add: big_first_def publish_def)
  have p: "mset (map submitted big_first) = mset (map submitted big_last)"
    by (simp add: big_first_def big_last_def publish_def)
  have i: "map (\<lambda>r. (records_id r, timestamp r)) (records (serve engine db0 big_first))
     = [(1, 10), (2, 20), (3, 30), (4, 40)]" by code_simp
  have j: "map (\<lambda>r. (records_id r, timestamp r)) (records (serve engine db0 big_last))
     = [(1, 10), (2, 20), (3, 30), (4, 40)]" by code_simp
  have a: "totalByEmployee engine (records (serve engine db0 big_first))
       = Inr [(Some ''Ana'', SInt 5, SReal (Finite 81129638414606681695789005144064))]"
    by code_simp
  have b: "totalByEmployee engine (records (serve engine db0 big_last))
       = Inr [(Some ''Ana'', SInt 5, SReal (Finite 81129638414606699710187514626048))]"
    by code_simp
  show ?thesis by (intro conjI) (rule l p i j a b)+
qed

lemma plain_sum_order_matters:
  "totalByEmployee plain_engine (records (serve plain_engine db0 big_first))
       = Inr [(Some ''Ana'', SInt 5, SReal (Finite 81129638414606681695789005144064))]
   \<and> totalByEmployee plain_engine (records (serve plain_engine db0 big_last))
       = Inr [(Some ''Ana'', SInt 5, SReal (Finite 81129638414606699710187514626048))]"
  by code_simp

end
